theory Spec2Isabelle
  imports Main "HOL-Library.Word"
begin

unbundle bit_operations_syntax

section \<open>Stream protocol (qr-stream.js)\<close>

text \<open>
  JavaScript's bitwise operators work on 32-bit integers, a \<open>Uint8Array\<close> cell holds a
  byte and a string is a sequence of 16-bit code units. Sequence numbers, totals and
  flags are the non-negative integers the sender and the receiver pass around.
\<close>

type_synonym byte = "8 word"
type_synonym int32 = "32 word"
type_synonym jsstring = "16 word list"

datatype js_error = TypeError | TooLong

subsection \<open>crc16\<close>

text \<open>One round of the inner loop: the test of bit 15, the shift and the polynomial.\<close>

definition crc16_step :: "int32 \<Rightarrow> int32" where
  "crc16_step crc =
     (if crc AND 0x8000 \<noteq> 0 then push_bit 1 crc XOR 0x1021 else push_bit 1 crc)"

text \<open>One round of the outer loop: the byte enters at bits 8..15, eight inner rounds,
  then the mask to 16 bits.\<close>

definition crc16_byte :: "int32 \<Rightarrow> byte \<Rightarrow> int32" where
  "crc16_byte crc b = ((crc16_step ^^ 8) (crc XOR push_bit 8 (ucast b))) AND 0xFFFF"

definition crc16 :: "byte list \<Rightarrow> int32" where
  "crc16 data = foldl crc16_byte 0xFFFF data"

subsection \<open>encodePacket and decodePacket\<close>

definition HEADER_SIZE :: nat where
  "HEADER_SIZE = 9"

definition MAGIC :: "byte list" where
  "MAGIC = [0x51, 0x53]"

definition FLAG_FIRST :: nat where "FLAG_FIRST = 1"
definition FLAG_LAST :: nat where "FLAG_LAST = 2"
definition FLAG_RETRANSMIT :: nat where "FLAG_RETRANSMIT = 4"
definition FLAG_ACK :: nat where "FLAG_ACK = 8"

text \<open>\<open>(x >> 8) & 0xFF\<close> and \<open>x & 0xFF\<close>, stored into a byte cell.\<close>

definition hi_byte :: "int32 \<Rightarrow> byte" where
  "hi_byte x = ucast (signed_drop_bit 8 x AND 0xFF)"

definition lo_byte :: "int32 \<Rightarrow> byte" where
  "lo_byte x = ucast (x AND 0xFF)"

text \<open>\<open>(data[i] << 8) | data[i + 1]\<close>.\<close>

definition be16 :: "byte \<Rightarrow> byte \<Rightarrow> int32" where
  "be16 h l = push_bit 8 (ucast h) OR ucast l"

definition encodePacket :: "nat \<Rightarrow> nat \<Rightarrow> nat \<Rightarrow> byte list \<Rightarrow> jsstring" where
  "encodePacket seq totl flags data =
     (let checksum = crc16 data;
          packet = MAGIC @
                   [hi_byte (of_nat seq), lo_byte (of_nat seq),
                    hi_byte (of_nat totl), lo_byte (of_nat totl),
                    of_nat flags,
                    hi_byte checksum, lo_byte checksum] @ data
      in map ucast packet)"

datatype decoded =
    Packet (pkt_seq: nat) (pkt_total: nat) (pkt_flags: nat) (pkt_data: "byte list")
  | ChecksumError (err_seq: nat)

text \<open>\<open>None\<close> is the \<open>null\<close> of a short string or a wrong magic.\<close>

definition decodePacket :: "jsstring \<Rightarrow> decoded option" where
  "decodePacket str =
     (if length str < HEADER_SIZE then None
      else
        let data = (map ucast str :: byte list) in
        if data ! 0 \<noteq> MAGIC ! 0 \<or> data ! 1 \<noteq> MAGIC ! 1 then None
        else
          let seq = be16 (data ! 2) (data ! 3);
              totl = be16 (data ! 4) (data ! 5);
              flags = data ! 6;
              checksum = be16 (data ! 7) (data ! 8);
              payload = drop HEADER_SIZE data
          in if crc16 payload \<noteq> checksum then Some (ChecksumError (unat seq))
             else Some (Packet (unat seq) (unat totl) (unat flags) payload))"

subsection \<open>Sender\<close>

record sender =
  chunkSize :: nat
  fps :: nat
  sdata :: "byte list"
  spackets :: "jsstring list"
  currentIndex :: nat
  retransmitQueue :: "nat list"
  isPlaying :: bool

record sender_options =
  opt_chunkSize :: "nat option"
  opt_fps :: "nat option"

definition DEFAULT_CHUNK_SIZE :: nat where
  "DEFAULT_CHUNK_SIZE = 1800"

text \<open>\<open>x || d\<close> on an option that may be missing or zero.\<close>

definition or_default :: "nat option \<Rightarrow> nat \<Rightarrow> nat" where
  "or_default x d = (case x of None \<Rightarrow> d | Some v \<Rightarrow> if v = 0 then d else v)"

text \<open>\<open>Math.ceil(a / b)\<close> for a positive divisor.\<close>

definition ceil_div :: "nat \<Rightarrow> nat \<Rightarrow> nat" where
  "ceil_div a b = (a + b - 1) div b"

definition createPacket :: "byte list \<Rightarrow> nat \<Rightarrow> nat \<Rightarrow> nat \<Rightarrow> jsstring" where
  "createPacket dat csize totalChunks i =
     (let start = i * csize;
          end = min (start + csize) (length dat);
          chunk = take (end - start) (drop start dat);
          flags0 = (if i = 0 then or 0 FLAG_FIRST else 0);
          flags = (if int i = int totalChunks - 1 then or flags0 FLAG_LAST else flags0)
      in encodePacket i totalChunks flags chunk)"

definition createPackets :: "byte list \<Rightarrow> nat \<Rightarrow> jsstring list" where
  "createPackets dat csize =
     (let totalChunks = ceil_div (length dat) csize
      in map (createPacket dat csize totalChunks) [0..<totalChunks])"

definition new_Sender :: "byte list \<Rightarrow> sender_options \<Rightarrow> sender" where
  "new_Sender dat options =
     (let csize = or_default (opt_chunkSize options) DEFAULT_CHUNK_SIZE
      in \<lparr> chunkSize = csize,
           fps = or_default (opt_fps options) 15,
           sdata = dat,
           spackets = createPackets dat csize,
           currentIndex = 0,
           retransmitQueue = [],
           isPlaying = False \<rparr>)"

definition totalPackets_of :: "sender \<Rightarrow> nat" where
  "totalPackets_of s = length (spackets s)"

text \<open>\<open>this.packets[seq]\<close>: \<open>undefined\<close> past the end.\<close>

definition packet_at :: "jsstring list \<Rightarrow> nat \<Rightarrow> jsstring option" where
  "packet_at ps i = (if i < length ps then Some (ps ! i) else None)"

record next_packet =
  np_packet :: "jsstring option"
  np_seq :: nat
  np_isRetransmit :: bool

definition getNextPacket :: "sender \<Rightarrow> next_packet option \<times> sender" where
  "getNextPacket s =
     (case retransmitQueue s of
        q # qs \<Rightarrow>
          (Some \<lparr> np_packet = packet_at (spackets s) q, np_seq = q, np_isRetransmit = True \<rparr>,
           s\<lparr> retransmitQueue := qs \<rparr>)
      | [] \<Rightarrow>
          if currentIndex s \<ge> length (spackets s) then (None, s)
          else
            (Some \<lparr> np_packet = packet_at (spackets s) (currentIndex s),
                    np_seq = currentIndex s, np_isRetransmit = False \<rparr>,
             s\<lparr> currentIndex := currentIndex s + 1 \<rparr>))"

definition requestRetransmit :: "sender \<Rightarrow> nat list \<Rightarrow> sender" where
  "requestRetransmit s sequences = s\<lparr> retransmitQueue := retransmitQueue s @ sequences \<rparr>"

definition reset_sender :: "sender \<Rightarrow> sender" where
  "reset_sender s = s\<lparr> currentIndex := 0, retransmitQueue := [] \<rparr>"

text \<open>A caller drives a sender through any sequence of its operations; the packets it
  ever hands out are those of the \<open>getNextPacket\<close> calls.\<close>

datatype sender_op = Next | Retransmit "nat list" | Reset

fun run_sender :: "sender \<Rightarrow> sender_op list \<Rightarrow> jsstring list" where
  "run_sender s [] = []"
| "run_sender s (Next # ops) =
     (case getNextPacket s of
        (Some r, s') \<Rightarrow>
          (case np_packet r of Some p \<Rightarrow> p # run_sender s' ops | None \<Rightarrow> run_sender s' ops)
      | (None, s') \<Rightarrow> run_sender s' ops)"
| "run_sender s (Retransmit sequences # ops) = run_sender (requestRetransmit s sequences) ops"
| "run_sender s (Reset # ops) = run_sender (reset_sender s) ops"

subsection \<open>Receiver\<close>

text \<open>The packet map keeps its keys in insertion order, as a \<open>Map\<close> does; \<open>receive\<close>
  only ever stores a key that is absent. The two callbacks are recorded as present or
  absent, and a call returns the events it fired, in order.\<close>

record receiver =
  packets :: "(nat \<times> byte list) list"
  totalPackets :: "nat option"
  checksumErrors :: "nat list"
  onProgress :: bool
  onComplete :: bool

datatype event = Progress nat nat "nat list" | Complete "byte list option"

datatype reason = Invalid | Checksum

datatype receive_result = Rejected reason "nat option" | Accepted nat nat

definition new_Receiver :: receiver where
  "new_Receiver = \<lparr> packets = [], totalPackets = None, checksumErrors = [],
                     onProgress = False, onComplete = False \<rparr>"

definition has :: "(nat \<times> byte list) list \<Rightarrow> nat \<Rightarrow> bool" where
  "has m k = (map_of m k \<noteq> None)"

definition set_add :: "nat \<Rightarrow> nat list \<Rightarrow> nat list" where
  "set_add k s = (if k \<in> set s then s else s @ [k])"

definition set_delete :: "nat \<Rightarrow> nat list \<Rightarrow> nat list" where
  "set_delete k s = removeAll k s"

definition getMissingSequences :: "receiver \<Rightarrow> nat list" where
  "getMissingSequences r =
     (case totalPackets r of
        None \<Rightarrow> []
      | Some t \<Rightarrow> filter (\<lambda>i. \<not> has (packets r) i) [0..<t])"

definition isComplete :: "receiver \<Rightarrow> bool" where
  "isComplete r =
     (case totalPackets r of None \<Rightarrow> False | Some t \<Rightarrow> length (packets r) = t)"

text \<open>The chunks 0, 1, ... of the map, or \<open>None\<close> when one is missing (where the source
  reads \<open>.length\<close> of \<open>undefined\<close>).\<close>

fun chunks_of :: "(nat \<times> byte list) list \<Rightarrow> nat list \<Rightarrow> byte list list option" where
  "chunks_of m [] = Some []"
| "chunks_of m (i # is) =
     (case map_of m i of
        None \<Rightarrow> None
      | Some c \<Rightarrow> (case chunks_of m is of None \<Rightarrow> None | Some cs \<Rightarrow> Some (c # cs)))"

definition reassemble :: "receiver \<Rightarrow> js_error + byte list option" where
  "reassemble r =
     (if \<not> isComplete r then Inr None
      else case chunks_of (packets r) [0..<the (totalPackets r)] of
             None \<Rightarrow> Inl TypeError
           | Some cs \<Rightarrow> Inr (Some (concat cs)))"

definition receive :: "receiver \<Rightarrow> jsstring \<Rightarrow> receiver \<times> event list \<times> (js_error + receive_result)" where
  "receive r qrData =
     (case decodePacket qrData of
        None \<Rightarrow> (r, [], Inr (Rejected Invalid None))
      | Some (ChecksumError s) \<Rightarrow>
          (r\<lparr> checksumErrors := set_add s (checksumErrors r) \<rparr>, [],
           Inr (Rejected Checksum (Some s)))
      | Some (Packet s t f d) \<Rightarrow>
          let r1 = (if \<not> has (packets r) s
                    then r\<lparr> packets := packets r @ [(s, d)],
                           checksumErrors := set_delete s (checksumErrors r) \<rparr>
                    else r);
              r2 = (if totalPackets r1 = None then r1\<lparr> totalPackets := Some t \<rparr> else r1);
              ev1 = (if onProgress r2
                     then [Progress (length (packets r2)) (the (totalPackets r2))
                             (getMissingSequences r2)]
                     else [])
          in if isComplete r2 \<and> onComplete r2
             then (case reassemble r2 of
                     Inl e \<Rightarrow> (r2, ev1, Inl e)
                   | Inr v \<Rightarrow> (r2, ev1 @ [Complete v], Inr (Accepted s t)))
             else (r2, ev1, Inr (Accepted s t)))"

text \<open>A session: the frames fed to one receiver, in order, with no reset between
  them; its events are those of the calls, in order.\<close>

fun run_receiver :: "receiver \<Rightarrow> jsstring list \<Rightarrow> event list" where
  "run_receiver r [] = []"
| "run_receiver r (f # fs) = (case receive r f of (r', evs, res) \<Rightarrow> evs @ run_receiver r' fs)"

fun is_Complete :: "event \<Rightarrow> bool" where
  "is_Complete (Complete v) = True"
| "is_Complete (Progress n t ms) = False"

definition completions :: "event list \<Rightarrow> nat" where
  "completions evs = length (filter is_Complete evs)"

text \<open>Concrete receivers and frames used to evaluate the model: a fresh receiver with an
  \<open>onComplete\<close> callback, the only packet of a one-packet stream with an empty payload,
  and the receiver after that packet.\<close>

definition listening :: receiver where
  "listening = new_Receiver\<lparr> onComplete := True \<rparr>"

definition single_frame :: jsstring where
  "single_frame = [0x51, 0x53, 0, 0, 0, 1, 3, 0xFF, 0xFF]"

definition listening_done :: receiver where
  "listening_done = listening\<lparr> packets := [(0, [])], totalPackets := Some 1 \<rparr>"

section \<open>QR encoder (qr-encoder.js)\<close>

text \<open>
  Numbers are the non-negative integers the encoder computes with: bytes, bits, module
  values (0 light, 1 dark), indices. An operation of the source that can throw, or that
  would write outside the module grid, returns \<open>None\<close>.
\<close>

subsection \<open>Galois field tables and Reed-Solomon\<close>

text \<open>\<open>x <<= 1; if (x & 0x100) x ^= 0x11d\<close>.\<close>

definition gf_double :: "nat \<Rightarrow> nat" where
  "gf_double x = (let y = 2 * x in if (y div 256) mod 2 = 1 then xor y 0x11d else y)"

fun gf_powers :: "nat \<Rightarrow> nat \<Rightarrow> nat list" where
  "gf_powers 0 x = []"
| "gf_powers (Suc n) x = x # gf_powers n (gf_double x)"

text \<open>\<open>initGF\<close>: the first loop fills \<open>GF_EXP[0..254]\<close> and \<open>GF_LOG\<close>, the second copies
  \<open>GF_EXP[i - 255]\<close> to \<open>GF_EXP[i]\<close> for i from 255 to 511. \<open>GF_LOG[0]\<close> is never set.\<close>

definition GF_EXP :: "nat list" where
  "GF_EXP = fold (\<lambda>i t. t @ [t ! (i - 255)]) [255..<512] (gf_powers 255 1)"

definition GF_LOG :: "nat option list" where
  "GF_LOG = fold (\<lambda>i t. t[GF_EXP ! i := Some i]) [0..<255] (replicate 256 None)"

definition gf_log :: "nat \<Rightarrow> nat option" where
  "gf_log x = (if x < length GF_LOG then GF_LOG ! x else None)"

definition gf_exp :: "nat \<Rightarrow> nat" where
  "gf_exp i = (if i < length GF_EXP then GF_EXP ! i else 0)"

text \<open>A product read off the tables. A missing table entry is \<open>undefined\<close> in the source,
  which the \<open>^=\<close> of every caller takes as 0.\<close>

definition gfMul :: "nat \<Rightarrow> nat \<Rightarrow> nat" where
  "gfMul x y =
     (if x = 0 \<or> y = 0 then 0
      else case (gf_log x, gf_log y) of
             (Some a, Some b) \<Rightarrow> gf_exp (a + b)
           | _ \<Rightarrow> 0)"

definition gfPow :: "nat \<Rightarrow> nat \<Rightarrow> nat" where
  "gfPow x expo = (case gf_log x of Some a \<Rightarrow> gf_exp ((a * expo) mod 255) | None \<Rightarrow> 0)"

definition gfPolyMul :: "nat list \<Rightarrow> nat list \<Rightarrow> nat list" where
  "gfPolyMul p q =
     fold (\<lambda>i res.
             fold (\<lambda>j res. res[i + j := xor (res ! (i + j)) (gfMul (p ! i) (q ! j))])
               [0..<length q] res)
       [0..<length p] (replicate (length p + length q - 1) 0)"

definition rsGeneratorPoly :: "nat \<Rightarrow> nat list" where
  "rsGeneratorPoly nsym = fold (\<lambda>i g. gfPolyMul g [1, gfPow 2 i]) [0..<nsym] [1]"

definition rsEncode :: "nat list \<Rightarrow> nat \<Rightarrow> nat list" where
  "rsEncode data nsym =
     (let gen = rsGeneratorPoly nsym;
          res0 = data @ replicate nsym 0;
          res = fold (\<lambda>i res.
                        let coef = res ! i in
                        if coef \<noteq> 0
                        then fold (\<lambda>j res. res[i + j := xor (res ! (i + j)) (gfMul (gen ! j) coef)])
                               [0..<length gen] res
                        else res)
                  [0..<length data] res0
      in drop (length data) res)"

subsection \<open>Tables\<close>

datatype ec_level = L | M | Q | H

text \<open>Per version 1..40: EC codewords per block, then the number of blocks and the data
  codewords per block of group 1 and of group 2.\<close>

fun EC_BLOCKS :: "ec_level \<Rightarrow> (nat \<times> nat \<times> nat \<times> nat \<times> nat) list" where
  "EC_BLOCKS L =
     [
      (7, 1, 19, 0, 0), (10, 1, 34, 0, 0), (15, 1, 55, 0, 0), (20, 1, 80, 0, 0),
      (26, 1, 108, 0, 0), (18, 2, 68, 0, 0), (20, 2, 78, 0, 0), (24, 2, 97, 0, 0),
      (30, 2, 116, 0, 0), (18, 2, 68, 2, 69), (20, 4, 81, 0, 0), (24, 2, 92, 2, 93),
      (26, 4, 107, 0, 0), (30, 3, 115, 1, 116), (22, 5, 87, 1, 88), (24, 5, 98, 1, 99),
      (28, 1, 107, 5, 108), (30, 5, 120, 1, 121), (28, 3, 113, 4, 114), (28, 3, 107, 5, 108),
      (28, 4, 116, 4, 117), (28, 2, 111, 7, 112), (30, 4, 121, 5, 122), (30, 6, 117, 4, 118),
      (26, 8, 106, 4, 107), (28, 10, 114, 2, 115), (30, 8, 122, 4, 123), (30, 3, 117, 10, 118),
      (30, 7, 116, 7, 117), (30, 5, 115, 10, 116), (30, 13, 115, 3, 116), (30, 17, 115, 0, 0),
      (30, 17, 115, 1, 116), (30, 13, 115, 6, 116), (30, 12, 121, 7, 122), (30, 6, 121, 14, 122),
      (30, 17, 122, 4, 123), (30, 4, 122, 18, 123), (30, 20, 117, 4, 118), (30, 19, 118, 6, 119)
     ]"
| "EC_BLOCKS M =
     [
      (10, 1, 16, 0, 0), (16, 1, 28, 0, 0), (26, 1, 44, 0, 0), (18, 2, 32, 0, 0),
      (24, 2, 43, 0, 0), (16, 4, 27, 0, 0), (18, 4, 31, 0, 0), (22, 2, 38, 2, 39),
      (22, 3, 36, 2, 37), (26, 4, 43, 1, 44), (30, 1, 50, 4, 51), (22, 6, 36, 2, 37),
      (22, 8, 37, 1, 38), (24, 4, 40, 5, 41), (24, 5, 41, 5, 42), (28, 7, 45, 3, 46),
      (28, 10, 46, 1, 47), (26, 9, 43, 4, 44), (26, 3, 44, 11, 45), (26, 3, 41, 13, 42),
      (26, 17, 42, 0, 0), (28, 17, 46, 0, 0), (28, 4, 47, 14, 48), (28, 6, 45, 14, 46),
      (28, 8, 47, 13, 48), (28, 19, 46, 4, 47), (28, 22, 45, 3, 46), (28, 3, 45, 23, 46),
      (28, 21, 45, 7, 46), (28, 19, 47, 10, 48), (28, 2, 46, 29, 47), (28, 10, 46, 23, 47),
      (28, 14, 46, 21, 47), (28, 14, 46, 23, 47), (28, 12, 47, 26, 48), (28, 6, 47, 34, 48),
      (28, 29, 46, 14, 47), (28, 13, 46, 32, 47), (28, 40, 47, 7, 48), (28, 18, 47, 31, 48)
     ]"
| "EC_BLOCKS Q =
     [
      (13, 1, 13, 0, 0), (22, 1, 22, 0, 0), (18, 2, 17, 0, 0), (26, 2, 24, 0, 0),
      (18, 2, 15, 2, 16), (24, 4, 19, 0, 0), (18, 2, 14, 4, 15), (22, 4, 18, 2, 19),
      (20, 4, 16, 4, 17), (24, 6, 19, 2, 20), (28, 4, 22, 4, 23), (26, 4, 20, 6, 21),
      (24, 8, 20, 4, 21), (20, 11, 16, 5, 17), (30, 5, 24, 7, 25), (24, 15, 19, 2, 20),
      (28, 1, 22, 15, 23), (28, 17, 22, 1, 23), (26, 17, 21, 4, 22), (30, 15, 24, 5, 25),
      (28, 17, 22, 6, 23), (30, 7, 24, 16, 25), (30, 11, 24, 14, 25), (30, 11, 24, 16, 25),
      (30, 7, 24, 22, 25), (28, 28, 22, 6, 23), (30, 8, 23, 26, 24), (30, 4, 24, 31, 25),
      (30, 1, 23, 37, 24), (30, 15, 24, 25, 25), (30, 42, 24, 1, 25), (30, 10, 24, 35, 25),
      (30, 29, 24, 19, 25), (30, 44, 24, 7, 25), (30, 39, 24, 14, 25), (30, 46, 24, 10, 25),
      (30, 49, 24, 10, 25), (30, 48, 24, 14, 25), (30, 43, 24, 22, 25), (30, 34, 24, 34, 25)
     ]"
| "EC_BLOCKS H =
     [
      (17, 1, 9, 0, 0), (28, 1, 16, 0, 0), (22, 2, 13, 0, 0), (16, 4, 9, 0, 0),
      (22, 2, 11, 2, 12), (28, 4, 15, 0, 0), (26, 4, 13, 1, 14), (26, 4, 14, 2, 15),
      (24, 4, 12, 4, 13), (28, 6, 15, 2, 16), (24, 3, 12, 8, 13), (28, 7, 14, 4, 15),
      (22, 12, 11, 4, 12), (24, 11, 12, 5, 13), (24, 11, 12, 7, 13), (30, 3, 15, 13, 16),
      (28, 2, 14, 17, 15), (28, 2, 14, 19, 15), (26, 9, 13, 16, 14), (28, 15, 15, 10, 16),
      (30, 19, 16, 6, 17), (24, 34, 13, 0, 0), (30, 16, 15, 14, 16), (30, 30, 16, 2, 17),
      (30, 22, 15, 13, 16), (30, 33, 16, 4, 17), (30, 12, 15, 28, 16), (30, 11, 15, 31, 16),
      (30, 19, 15, 26, 16), (30, 23, 15, 25, 16), (30, 23, 15, 28, 16), (30, 19, 15, 35, 16),
      (30, 11, 15, 46, 16), (30, 59, 16, 1, 17), (30, 22, 15, 41, 16), (30, 2, 15, 64, 16),
      (30, 24, 15, 46, 16), (30, 42, 15, 32, 16), (30, 10, 15, 67, 16), (30, 20, 15, 61, 16)
     ]"


text \<open>\<open>EC_BLOCKS[ecLevel][version - 1]\<close>; destructuring a missing row throws.\<close>

definition ec_blocks_at :: "ec_level \<Rightarrow> nat \<Rightarrow> (nat \<times> nat \<times> nat \<times> nat \<times> nat) option" where
  "ec_blocks_at ecLevel version =
     (if 1 \<le> version \<and> version \<le> length (EC_BLOCKS ecLevel)
      then Some (EC_BLOCKS ecLevel ! (version - 1)) else None)"

definition getDataCapacity :: "nat \<Rightarrow> ec_level \<Rightarrow> nat option" where
  "getDataCapacity version ecLevel =
     (case ec_blocks_at ecLevel version of
        None \<Rightarrow> None
      | Some (ecPerBlock, blocks1, data1, blocks2, data2) \<Rightarrow>
          Some (blocks1 * data1 + blocks2 * data2))"

definition ALIGNMENT_POSITIONS :: "nat list list" where
  "ALIGNMENT_POSITIONS =
     [
      [],
      [6, 18],
      [6, 22],
      [6, 26],
      [6, 30],
      [6, 34],
      [6, 22, 38],
      [6, 24, 42],
      [6, 26, 46],
      [6, 28, 50],
      [6, 30, 54],
      [6, 32, 58],
      [6, 34, 62],
      [6, 26, 46, 66],
      [6, 26, 48, 70],
      [6, 26, 50, 74],
      [6, 30, 54, 78],
      [6, 30, 56, 82],
      [6, 30, 58, 86],
      [6, 34, 62, 90],
      [6, 28, 50, 72, 94],
      [6, 26, 50, 74, 98],
      [6, 30, 54, 78, 102],
      [6, 28, 54, 80, 106],
      [6, 32, 58, 84, 110],
      [6, 30, 58, 86, 114],
      [6, 34, 62, 90, 118],
      [6, 26, 50, 74, 98, 122],
      [6, 30, 54, 78, 102, 126],
      [6, 26, 52, 78, 104, 130],
      [6, 30, 56, 82, 108, 134],
      [6, 34, 60, 86, 112, 138],
      [6, 30, 58, 86, 114, 142],
      [6, 34, 62, 90, 118, 146],
      [6, 30, 54, 78, 102, 126, 150],
      [6, 24, 50, 76, 102, 128, 154],
      [6, 28, 54, 80, 106, 132, 158],
      [6, 32, 58, 84, 110, 136, 162],
      [6, 26, 54, 82, 110, 138, 166],
      [6, 30, 58, 86, 114, 142, 170]
     ]"


definition VERSION_INFO :: "nat list" where
  "VERSION_INFO =
     [
      0x07C94, 0x085BC, 0x09A99, 0x0A4D3, 0x0BBF6, 0x0C762, 0x0D847, 0x0E60D,
      0x0F928, 0x10B78, 0x1145D, 0x12A17, 0x13532, 0x149A6, 0x15683, 0x168C9,
      0x177EC, 0x18EC4, 0x191E1, 0x1AFAB, 0x1B08E, 0x1CC1A, 0x1D33F, 0x1ED75,
      0x1F250, 0x209D5, 0x216F0, 0x228BA, 0x2379F, 0x24B0B, 0x2542E, 0x26A64,
      0x27541, 0x28C69
     ]"

fun FORMAT_INFO :: "ec_level \<Rightarrow> nat list" where
  "FORMAT_INFO L = [0x77c4, 0x72f3, 0x7daa, 0x789d, 0x662f, 0x6318, 0x6c41, 0x6976]"
| "FORMAT_INFO M = [0x5412, 0x5125, 0x5e7c, 0x5b4b, 0x45f9, 0x40ce, 0x4f97, 0x4aa0]"
| "FORMAT_INFO Q = [0x355f, 0x3068, 0x3f31, 0x3a06, 0x24b4, 0x2183, 0x2eda, 0x2bed]"
| "FORMAT_INFO H = [0x1689, 0x13be, 0x1ce7, 0x19d0, 0x0762, 0x0255, 0x0d0c, 0x083b]"

subsection \<open>Version selection and data encoding\<close>

text \<open>The loop of \<open>getVersion\<close> from version \<open>v\<close> on; \<open>available\<close> is an integer, it could
  be negative.\<close>

function getVersion_from :: "nat \<Rightarrow> nat \<Rightarrow> ec_level \<Rightarrow> js_error + nat" where
  "getVersion_from v len ecLevel =
     (if v \<le> 40
      then (case getDataCapacity v ecLevel of
              None \<Rightarrow> Inl TypeError
            | Some capacity \<Rightarrow>
                let countBits = (if v < 10 then 8 else 16 :: nat);
                    headerBits = 4 + countBits;
                    available = int capacity * 8 - int headerBits - 4
                in if int len * 8 \<le> available then Inr v
                   else getVersion_from (v + 1) len ecLevel)
      else Inl TooLong)"
  by pat_completeness auto
termination
  by (relation "measure (\<lambda>(v, len, ecLevel). 41 - v)") auto

definition getVersion :: "nat list \<Rightarrow> ec_level \<Rightarrow> js_error + nat" where
  "getVersion data ecLevel = getVersion_from 1 (length data) ecLevel"

text \<open>\<open>(x >> i) & 1\<close>.\<close>

definition bit_of :: "nat \<Rightarrow> nat \<Rightarrow> nat" where
  "bit_of x i = (x div 2 ^ i) mod 2"

text \<open>The bits of \<open>x\<close> from bit \<open>n - 1\<close> down to bit 0.\<close>

definition bits_msb :: "nat \<Rightarrow> nat \<Rightarrow> nat list" where
  "bits_msb n x = map (bit_of x) (rev [0..<n])"

function pad_to_byte :: "nat list \<Rightarrow> nat list" where
  "pad_to_byte bits = (if length bits mod 8 \<noteq> 0 then pad_to_byte (bits @ [0]) else bits)"
  by pat_completeness auto
termination
proof (relation "measure (\<lambda>bits. (8 - length bits mod 8) mod 8)")
  show "wf (measure (\<lambda>bits. (8 - length bits mod 8) mod 8))" by simp
next
  fix bits :: "nat list"
  assume a: "length bits mod 8 \<noteq> 0"
  have b: "length bits mod 8 < 8" by simp
  have "Suc (length bits) mod 8 = (if Suc (length bits mod 8) = 8 then 0 else Suc (length bits mod 8))"
    by (simp only: mod_Suc)
  with a b show "(bits @ [0], bits) \<in> measure (\<lambda>bits. (8 - length bits mod 8) mod 8)"
    by (auto split: if_splits)
qed

function pad_bytes :: "nat \<Rightarrow> nat \<Rightarrow> nat list \<Rightarrow> nat list" where
  "pad_bytes capacity padIndex bits =
     (if length bits < capacity * 8
      then pad_bytes capacity (padIndex + 1) (bits @ bits_msb 8 ([0xec, 0x11] ! (padIndex mod 2)))
      else bits)"
  by pat_completeness auto
termination
  by (relation "measure (\<lambda>(capacity, padIndex, bits). capacity * 8 - length bits)")
    (auto simp: bits_msb_def)

text \<open>Eight bits to a byte, most significant first; a bit read past the end is
  \<open>undefined\<close>, which \<open>|\<close> takes as 0.\<close>

definition byte_at :: "nat list \<Rightarrow> nat \<Rightarrow> nat" where
  "byte_at bits i =
     fold (\<lambda>j byte. 2 * byte + (if i + j < length bits then bits ! (i + j) else 0)) [0..<8] 0"

definition to_bytes :: "nat list \<Rightarrow> nat list" where
  "to_bytes bits = map (\<lambda>k. byte_at bits (8 * k)) [0..<(length bits + 7) div 8]"

definition encodeData :: "nat list \<Rightarrow> nat \<Rightarrow> ec_level \<Rightarrow> nat list option" where
  "encodeData data version ecLevel =
     (case getDataCapacity version ecLevel of
        None \<Rightarrow> None
      | Some capacity \<Rightarrow>
          let countBits = (if version < 10 then 8 else 16 :: nat);
              bits1 = [0, 1, 0, 0] @ bits_msb countBits (length data);
              bits2 = bits1 @ concat (map (\<lambda>ch. bits_msb 8 (ch mod 256)) data);
              remaining = int capacity * 8 - int (length bits2);
              bits3 = bits2 @ replicate (nat (min 4 remaining)) 0;
              bits4 = pad_to_byte bits3;
              bits5 = pad_bytes capacity 0 bits4
          in Some (to_bytes bits5))"

definition js_slice :: "'a list \<Rightarrow> nat \<Rightarrow> nat \<Rightarrow> 'a list" where
  "js_slice xs a b = take (b - a) (drop a xs)"

definition addErrorCorrection :: "nat list \<Rightarrow> nat \<Rightarrow> ec_level \<Rightarrow> nat list option" where
  "addErrorCorrection dataBytes version ecLevel =
     (case ec_blocks_at ecLevel version of
        None \<Rightarrow> None
      | Some (ecPerBlock, blocks1, data1, blocks2, data2) \<Rightarrow>
          let group1 = map (\<lambda>i. js_slice dataBytes (i * data1) (i * data1 + data1)) [0..<blocks1];
              dataIndex = blocks1 * data1;
              group2 = map (\<lambda>i. js_slice dataBytes (dataIndex + i * data2)
                                    (dataIndex + i * data2 + data2)) [0..<blocks2];
              dataBlocks = group1 @ group2;
              ecBlocks = map (\<lambda>block. rsEncode block ecPerBlock) dataBlocks;
              maxDataLen = max data1 data2;
              result1 = concat (map (\<lambda>i. concat (map (\<lambda>block. if i < length block
                                                               then [block ! i] else [])
                                                    dataBlocks))
                                 [0..<maxDataLen]);
              result2 = concat (map (\<lambda>i. map (\<lambda>block. block ! i) ecBlocks) [0..<ecPerBlock])
          in Some (result1 @ result2))"

subsection \<open>The module grid\<close>

record qr =
  matrix :: "nat list list"
  reserved :: "bool list list"
  qsize :: nat

definition createMatrix :: "nat \<Rightarrow> qr" where
  "createMatrix version =
     (let sz = version * 4 + 17
      in \<lparr> matrix = replicate sz (replicate sz 0),
           reserved = replicate sz (replicate sz False),
           qsize = sz \<rparr>)"

text \<open>A read and a write of a cell inside the grid; outside it they are \<open>None\<close> (the
  source would throw on a missing row, read \<open>undefined\<close> or grow the row on a missing
  column).\<close>

definition cell_get :: "'a list list \<Rightarrow> nat \<Rightarrow> nat \<Rightarrow> 'a option" where
  "cell_get m r c = (if r < length m \<and> c < length (m ! r) then Some (m ! r ! c) else None)"

definition cell_set :: "'a list list \<Rightarrow> nat \<Rightarrow> nat \<Rightarrow> 'a \<Rightarrow> 'a list list option" where
  "cell_set m r c v =
     (if r < length m \<and> c < length (m ! r) then Some (m[r := (m ! r)[c := v]]) else None)"

text \<open>\<open>matrix[r][c] = v; reserved[r][c] = true\<close>.\<close>

definition mark :: "qr \<Rightarrow> nat \<Rightarrow> nat \<Rightarrow> nat \<Rightarrow> qr option" where
  "mark q r c v =
     (case cell_set (matrix q) r c v of
        None \<Rightarrow> None
      | Some m \<Rightarrow>
          (case cell_set (reserved q) r c True of
             None \<Rightarrow> None
           | Some rs \<Rightarrow> Some (q\<lparr> matrix := m, reserved := rs \<rparr>)))"

text \<open>The same with indices that may be negative.\<close>

definition mark_at :: "qr \<Rightarrow> int \<Rightarrow> int \<Rightarrow> nat \<Rightarrow> qr option" where
  "mark_at q r c v = (if r < 0 \<or> c < 0 then None else mark q (nat r) (nat c) v)"

text \<open>A loop whose body can fail.\<close>

fun foldM :: "('a \<Rightarrow> 's \<Rightarrow> 's option) \<Rightarrow> 'a list \<Rightarrow> 's \<Rightarrow> 's option" where
  "foldM f [] s = Some s"
| "foldM f (x # xs) s = (case f x s of None \<Rightarrow> None | Some s' \<Rightarrow> foldM f xs s')"

definition addFinderPattern :: "qr \<Rightarrow> nat \<Rightarrow> nat \<Rightarrow> qr option" where
  "addFinderPattern q row col =
     foldM (\<lambda>(r, c) q.
              let nr = int row + r; nc = int col + c in
              if nr < 0 \<or> nr \<ge> int (length (matrix q)) \<or> nc < 0 \<or> nc \<ge> int (length (matrix q))
              then Some q
              else
                let val = (if r \<ge> 0 \<and> r \<le> 6 \<and> c \<ge> 0 \<and> c \<le> 6 \<and>
                              (r = 0 \<or> r = 6 \<or> c = 0 \<or> c = 6 \<or>
                               (r \<ge> 2 \<and> r \<le> 4 \<and> c \<ge> 2 \<and> c \<le> 4))
                           then 1 else 0)
                in mark_at q nr nc val)
       (List.product [-1..7] [-1..7]) q"

text \<open>The first loop of \<open>addAlignmentPattern\<close>: is a cell of the 5x5 square that lies in
  the grid already reserved?\<close>

fun anyM :: "('a \<Rightarrow> bool option) \<Rightarrow> 'a list \<Rightarrow> bool option" where
  "anyM f [] = Some False"
| "anyM f (x # xs) =
     (case f x of None \<Rightarrow> None | Some True \<Rightarrow> Some True | Some False \<Rightarrow> anyM f xs)"

definition addAlignmentPattern :: "qr \<Rightarrow> nat \<Rightarrow> nat \<Rightarrow> qr option" where
  "addAlignmentPattern q row col =
     (case anyM (\<lambda>(r, c).
                   let nr = int row + r; nc = int col + c in
                   if nr < 0 \<or> nr \<ge> int (length (matrix q)) \<or> nc < 0 \<or> nc \<ge> int (length (matrix q))
                   then Some False
                   else cell_get (reserved q) (nat nr) (nat nc))
             (List.product [-2..2] [-2..2]) of
        None \<Rightarrow> None
      | Some True \<Rightarrow> Some q
      | Some False \<Rightarrow>
          foldM (\<lambda>(r, c) q.
                   let nr = int row + r; nc = int col + c;
                       val = (if \<bar>r\<bar> = 2 \<or> \<bar>c\<bar> = 2 \<or> (r = 0 \<and> c = 0) then 1 else 0)
                   in mark_at q nr nc val)
            (List.product [-2..2] [-2..2]) q)"

definition addAlignmentPatterns :: "qr \<Rightarrow> nat \<Rightarrow> qr option" where
  "addAlignmentPatterns q version =
     (if version \<ge> 2
      then (if version - 1 < length ALIGNMENT_POSITIONS
            then let positions = ALIGNMENT_POSITIONS ! (version - 1)
                 in foldM (\<lambda>(r, c) q. addAlignmentPattern q r c) (List.product positions positions) q
            else None)
      else Some q)"

definition addTimingPatterns :: "qr \<Rightarrow> nat \<Rightarrow> qr option" where
  "addTimingPatterns q sz =
     foldM (\<lambda>i q. let val = (i + 1) mod 2 in
                    case mark q 6 i val of None \<Rightarrow> None | Some q1 \<Rightarrow> mark q1 i 6 val)
       [8..<sz - 8] q"

definition addVersionInfo :: "qr \<Rightarrow> nat \<Rightarrow> nat \<Rightarrow> qr option" where
  "addVersionInfo q sz version =
     (if version < 7 then Some q
      else
        let info = (if version - 7 < length VERSION_INFO then VERSION_INFO ! (version - 7) else 0)
        in case foldM (\<lambda>(i, j) q. mark_at q (int sz - 11 + int j) (int i) (bit_of info (i * 3 + j)))
                  (List.product [0..<6] [0..<3]) q of
             None \<Rightarrow> None
           | Some q1 \<Rightarrow>
               foldM (\<lambda>(i, j) q. mark_at q (int i) (int sz - 11 + int j) (bit_of info (i * 3 + j)))
                 (List.product [0..<6] [0..<3]) q1)"

definition format_info :: "ec_level \<Rightarrow> nat \<Rightarrow> nat" where
  "format_info ecLevel msk =
     (if msk < length (FORMAT_INFO ecLevel) then FORMAT_INFO ecLevel ! msk else 0)"

text \<open>The writes of \<open>addFormatInfo\<close>, in order: row, column, value.\<close>

definition format_cells :: "nat \<Rightarrow> nat \<Rightarrow> (int \<times> int \<times> nat) list" where
  "format_cells sz info =
     map (\<lambda>i. (8, int i, bit_of info (14 - i))) [0..<6] @
     [(8, 7, bit_of info 8), (8, 8, bit_of info 7), (7, 8, bit_of info 6)] @
     map (\<lambda>i. (5 - int i, 8, bit_of info (5 - i))) [0..<6] @
     map (\<lambda>i. (8, int sz - 1 - int i, bit_of info i)) [0..<8] @
     map (\<lambda>i. (int sz - 1 - int i, 8, bit_of info (14 - i))) [0..<7] @
     [(int sz - 8, 8, 1)]"

definition addFormatInfo :: "qr \<Rightarrow> nat \<Rightarrow> ec_level \<Rightarrow> nat \<Rightarrow> qr option" where
  "addFormatInfo q sz ecLevel msk =
     foldM (\<lambda>(r, c, v) q. mark_at q r c v) (format_cells sz (format_info ecLevel msk)) q"

subsection \<open>Data placement, masking, penalty\<close>

text \<open>The body of the innermost loop of \<open>placeData\<close>: the state is the grid and
  \<open>bitIndex\<close>.\<close>

definition place_cell :: "nat list \<Rightarrow> nat \<Rightarrow> int \<Rightarrow> qr \<times> nat \<Rightarrow> (qr \<times> nat) option" where
  "place_cell bits actualRow actualCol st =
     (case st of (q, bitIndex) \<Rightarrow>
        if actualCol < 0 then None
        else case cell_get (reserved q) actualRow (nat actualCol) of
               None \<Rightarrow> None
             | Some True \<Rightarrow> Some (q, bitIndex)
             | Some False \<Rightarrow>
                 (case cell_set (matrix q) actualRow (nat actualCol)
                         (if bitIndex < length bits then bits ! bitIndex else 0) of
                    None \<Rightarrow> None
                  | Some m \<Rightarrow>
                      Some (q\<lparr> matrix := m \<rparr>,
                            if bitIndex < length bits then bitIndex + 1 else bitIndex)))"

text \<open>One two-column strip: all rows, upward or downward, right column then left.\<close>

definition place_strip :: "nat list \<Rightarrow> nat \<Rightarrow> int \<Rightarrow> bool \<Rightarrow> qr \<times> nat \<Rightarrow> (qr \<times> nat) option" where
  "place_strip bits sz col upward st =
     foldM (\<lambda>(row, c) st.
              let actualRow = (if upward then sz - 1 - row else row)
              in place_cell bits actualRow (col - int c) st)
       (List.product [0..<sz] [0..<2]) st"

text \<open>The column loop: \<open>for (col = size - 1; col >= 0; col -= 2) { if (col === 6) col = 5; ... }\<close>.\<close>

function place_cols :: "nat list \<Rightarrow> nat \<Rightarrow> int \<Rightarrow> bool \<Rightarrow> qr \<times> nat \<Rightarrow> (qr \<times> nat) option" where
  "place_cols bits sz col upward st =
     (if col \<ge> 0
      then (let col' = (if col = 6 then 5 else col)
            in case place_strip bits sz col' upward st of
                 None \<Rightarrow> None
               | Some st' \<Rightarrow> place_cols bits sz (col' - 2) (\<not> upward) st')
      else Some st)"
  by pat_completeness auto
termination
  by (relation "measure (\<lambda>(bits, sz, col, upward, st). nat (col + 1))") auto

definition placeData :: "qr \<Rightarrow> nat \<Rightarrow> nat list \<Rightarrow> qr option" where
  "placeData q sz data =
     (let bits = concat (map (bits_msb 8) data)
      in case place_cols bits sz (int sz - 1) True (q, 0) of
           None \<Rightarrow> None
         | Some (q', bitIndex) \<Rightarrow> Some q')"

definition maskFunctions :: "(nat \<Rightarrow> nat \<Rightarrow> bool) list" where
  "maskFunctions =
     [\<lambda>r c. (r + c) mod 2 = 0,
      \<lambda>r c. r mod 2 = 0,
      \<lambda>r c. c mod 3 = 0,
      \<lambda>r c. (r + c) mod 3 = 0,
      \<lambda>r c. (r div 2 + c div 3) mod 2 = 0,
      \<lambda>r c. (r * c) mod 2 + (r * c) mod 3 = 0,
      \<lambda>r c. ((r * c) mod 2 + (r * c) mod 3) mod 2 = 0,
      \<lambda>r c. ((r + c) mod 2 + (r * c) mod 3) mod 2 = 0]"

text \<open>\<open>x ^= 1\<close> on a module value.\<close>

definition flip_module :: "nat \<Rightarrow> nat" where
  "flip_module x = xor x 1"

definition applyMask :: "qr \<Rightarrow> nat \<Rightarrow> nat \<Rightarrow> qr option" where
  "applyMask q sz msk =
     (if msk < length maskFunctions
      then
        let fn = maskFunctions ! msk in
        foldM (\<lambda>(r, c) q.
                 case cell_get (reserved q) r c of
                   None \<Rightarrow> None
                 | Some rsv \<Rightarrow>
                     if \<not> rsv \<and> fn r c
                     then (case cell_get (matrix q) r c of
                             None \<Rightarrow> None
                           | Some x \<Rightarrow>
                               (case cell_set (matrix q) r c (flip_module x) of
                                  None \<Rightarrow> None
                                | Some m \<Rightarrow> Some (q\<lparr> matrix := m \<rparr>)))
                     else Some q)
          (List.product [0..<sz] [0..<sz]) q
      else None)"

text \<open>Rule 1 along one line of the grid, read through \<open>get\<close>: the state is \<open>count\<close> and
  \<open>penalty\<close>.\<close>

definition run_penalty :: "(nat \<Rightarrow> nat) \<Rightarrow> nat \<Rightarrow> nat \<Rightarrow> nat" where
  "run_penalty get sz penalty =
     (case fold (\<lambda>i (count, penalty).
                   if get i = get (i - 1) then (count + 1, penalty)
                   else (1, if count \<ge> 5 then penalty + (count - 2) else penalty))
             [1..<sz] (1 :: nat, penalty) of
        (count, penalty') \<Rightarrow> if count \<ge> 5 then penalty' + (count - 2) else penalty')"

definition scorePenalty :: "nat list list \<Rightarrow> nat \<Rightarrow> nat" where
  "scorePenalty m sz =
     (let p1 = fold (\<lambda>r penalty. run_penalty (\<lambda>c. m ! r ! c) sz penalty) [0..<sz] 0;
          p2 = fold (\<lambda>c penalty. run_penalty (\<lambda>r. m ! r ! c) sz penalty) [0..<sz] p1
      in fold (\<lambda>(r, c) penalty.
                 let val = m ! r ! c in
                 if val = m ! r ! (c + 1) \<and> val = m ! (r + 1) ! c \<and> val = m ! (r + 1) ! (c + 1)
                 then penalty + 3 else penalty)
           (List.product [0..<sz - 1] [0..<sz - 1]) p2)"

subsection \<open>generate\<close>

text \<open>The body of the mask loop up to the masked grid.\<close>

definition candidate :: "nat \<Rightarrow> ec_level \<Rightarrow> nat list \<Rightarrow> nat \<Rightarrow> qr option" where
  "candidate version ecLevel finalData msk =
     (let q0 = createMatrix version; sz = qsize q0 in
      case addFinderPattern q0 0 0 of None \<Rightarrow> None | Some q1 \<Rightarrow>
      case addFinderPattern q1 0 (sz - 7) of None \<Rightarrow> None | Some q2 \<Rightarrow>
      case addFinderPattern q2 (sz - 7) 0 of None \<Rightarrow> None | Some q3 \<Rightarrow>
      case addAlignmentPatterns q3 version of None \<Rightarrow> None | Some q4 \<Rightarrow>
      case addTimingPatterns q4 sz of None \<Rightarrow> None | Some q5 \<Rightarrow>
      case addVersionInfo q5 sz version of None \<Rightarrow> None | Some q6 \<Rightarrow>
      case addFormatInfo q6 sz ecLevel msk of None \<Rightarrow> None | Some q7 \<Rightarrow>
      case placeData q7 sz finalData of None \<Rightarrow> None | Some q8 \<Rightarrow>
      applyMask q8 sz msk)"

text \<open>The mask loop: \<open>bestMatrix\<close> and \<open>bestPenalty\<close> are \<open>None\<close> for \<open>null\<close> and
  \<open>Infinity\<close>.\<close>

definition mask_step ::
  "nat \<Rightarrow> ec_level \<Rightarrow> nat list \<Rightarrow> nat \<Rightarrow> (nat list list \<times> nat) option \<Rightarrow>
   (nat list list \<times> nat) option option" where
  "mask_step version ecLevel finalData msk best =
     (case candidate version ecLevel finalData msk of
        None \<Rightarrow> None
      | Some q \<Rightarrow>
          let penalty = scorePenalty (matrix q) (qsize q) in
          Some (case best of
                  None \<Rightarrow> Some (matrix q, penalty)
                | Some (bestMatrix, bestPenalty) \<Rightarrow>
                    if penalty < bestPenalty then Some (matrix q, penalty) else best))"

datatype js_value = JMatrix "nat list list" | JNumber nat

definition generate :: "nat list \<Rightarrow> ec_level \<Rightarrow> js_error + (string \<times> js_value) list" where
  "generate text ecLevel =
     (case getVersion text ecLevel of
        Inl e \<Rightarrow> Inl e
      | Inr version \<Rightarrow>
          (case encodeData text version ecLevel of
             None \<Rightarrow> Inl TypeError
           | Some dataBytes \<Rightarrow>
               (case addErrorCorrection dataBytes version ecLevel of
                  None \<Rightarrow> Inl TypeError
                | Some finalData \<Rightarrow>
                    (case foldM (mask_step version ecLevel finalData) [0..<8] None of
                       None \<Rightarrow> Inl TypeError
                     | Some None \<Rightarrow> Inl TypeError
                     | Some (Some (bestMatrix, bestPenalty)) \<Rightarrow>
                         Inr [(''matrix'', JMatrix bestMatrix),
                              (''size'', JNumber (length bestMatrix))]))))"

subsection \<open>Notions used to state what generate returns\<close>

text \<open>A grid of side n: both arrays are n by n.\<close>

definition square :: "nat \<Rightarrow> 'a list list \<Rightarrow> bool" where
  "square n m = (length m = n \<and> list_all (\<lambda>row. length row = n) m)"

definition grid_ok :: "nat \<Rightarrow> qr \<Rightarrow> bool" where
  "grid_ok n q = (qsize q = n \<and> square n (matrix q) \<and> square n (reserved q))"

text \<open>Every alignment centre of a version lies at least 6 modules inside the symbol.\<close>

definition positions_inside :: "nat \<Rightarrow> nat list \<Rightarrow> bool" where
  "positions_inside v ps = list_all (\<lambda>p. 6 \<le> p \<and> p + 7 \<le> 4 * v + 17) ps"

text \<open>The columns the loop of \<open>placeData\<close> visits: even ones above the timing column,
  odd ones below it, and -1 at the end.\<close>

definition col_inv :: "nat \<Rightarrow> int \<Rightarrow> bool" where
  "col_inv n col = (col = -1 \<or> col = 1 \<or> col = 3 \<or> col = 5 \<or> (6 \<le> col \<and> even col \<and> col < int n))"

text \<open>The masked grid of a payload for one mask index, and the score the source gives it.\<close>

definition masked_matrix :: "nat list \<Rightarrow> ec_level \<Rightarrow> nat \<Rightarrow> nat list list option" where
  "masked_matrix text ecLevel msk =
     (case getVersion text ecLevel of
        Inl e \<Rightarrow> None
      | Inr version \<Rightarrow>
          (case encodeData text version ecLevel of
             None \<Rightarrow> None
           | Some dataBytes \<Rightarrow>
               (case addErrorCorrection dataBytes version ecLevel of
                  None \<Rightarrow> None
                | Some finalData \<Rightarrow>
                    map_option matrix (candidate version ecLevel finalData msk))))"

definition code_penalty :: "nat list list \<Rightarrow> nat" where
  "code_penalty m = scorePenalty m (length m)"

text \<open>\<open>k\<close> is the first index below \<open>n\<close> at which \<open>p\<close> is least.\<close>

definition first_min :: "(nat \<Rightarrow> nat) \<Rightarrow> nat \<Rightarrow> nat \<Rightarrow> bool" where
  "first_min p n k = (k < n \<and> (\<forall>j<n. p k \<le> p j) \<and> (\<forall>j<k. p k < p j))"

subsection \<open>The specification's wording of version selection and of the format word\<close>

text \<open>Written from the specification, to be compared with \<open>getVersion\<close> and with the
  \<open>FORMAT_INFO\<close> table of the source: the width of the character count, the bit budget
  \<open>4 + count_bits + 8 * len + 4 \<le> 8 * capacity\<close>, the error-correction codes L:01, M:00,
  Q:11, H:10, and the BCH(15,5) code word of a 5-bit word (the word shifted left by 10,
  plus the remainder of its division by the generator 0x537 over GF(2)), XORed with a
  constant.\<close>

definition count_bits_spec :: "nat \<Rightarrow> nat" where
  "count_bits_spec v = (if v \<le> 9 then 8 else 16)"

definition fits_spec :: "nat \<Rightarrow> ec_level \<Rightarrow> nat \<Rightarrow> bool" where
  "fits_spec len ecLevel v =
     (case getDataCapacity v ecLevel of
        None \<Rightarrow> False
      | Some cap \<Rightarrow> 4 + count_bits_spec v + 8 * len + 4 \<le> 8 * cap)"

definition ec_code_spec :: "ec_level \<Rightarrow> nat" where
  "ec_code_spec ec = (case ec of L \<Rightarrow> 1 | M \<Rightarrow> 0 | Q \<Rightarrow> 3 | H \<Rightarrow> 2)"

definition bch_step_spec :: "nat \<Rightarrow> nat \<Rightarrow> nat" where
  "bch_step_spec i r = (if bit_of r i = 1 then xor r (0x537 * 2 ^ (i - 10)) else r)"

definition bch_15_5_spec :: "nat \<Rightarrow> nat" where
  "bch_15_5_spec d = d * 2 ^ 10 + fold bch_step_spec [14, 13, 12, 11, 10] (d * 2 ^ 10)"

definition format_word_spec :: "nat \<Rightarrow> ec_level \<Rightarrow> nat \<Rightarrow> nat" where
  "format_word_spec c ec m = xor (bch_15_5_spec (ec_code_spec ec * 8 + m)) c"

section \<open>Properties of the stream protocol\<close>

lemma funpow8: "(f ^^ 8) x = f (f (f (f (f (f (f (f x)))))))"
  by (simp add: eval_nat_numeral)

text \<open>
  C8. The checksum of the empty byte sequence is 0xFFFF, and the checksum of the nine
  bytes 0x31 .. 0x39 (the ASCII digits 1 to 9) is 0x29B1, the check value of
  CRC-16/CCITT-FALSE.
\<close>

theorem crc16_test_vectors:
  "crc16 [] = 0xFFFF \<and>
   crc16 [0x31, 0x32, 0x33, 0x34, 0x35, 0x36, 0x37, 0x38, 0x39] = 0x29B1"
  by (simp add: crc16_def crc16_byte_def crc16_step_def funpow8)


subsection \<open>Packets\<close>

lemma ucast_byte_roundtrip: "(ucast (ucast (b :: byte) :: 16 word) :: byte) = b"
  by (rule bit_word_eqI) (auto simp: bit_simps)

lemma map_ucast_roundtrip: "map ucast (map ucast (bs :: byte list) :: 16 word list) = bs"
  by (induction bs) (simp_all add: ucast_byte_roundtrip)

lemma mask16: "(0xFFFF :: int32) = mask 16"
  by (simp add: mask_eq_exp_minus_1)

lemma mask8: "(0xFF :: int32) = mask 8"
  by (simp add: mask_eq_exp_minus_1)

lemma crc16_masked: "take_bit 16 (crc16 d) = crc16 d"
proof (cases d rule: rev_cases)
  case Nil
  then show ?thesis by (simp add: crc16_def mask16 flip: take_bit_eq_mask)
next
  case (snoc ys y)
  then show ?thesis by (simp add: crc16_def crc16_byte_def mask16 flip: take_bit_eq_mask)
qed

lemma be16_hi_lo:
  assumes "take_bit 16 x = x"
  shows "be16 (hi_byte x) (lo_byte x) = x"
proof -
  have b: "bit x n \<Longrightarrow> n < 16" for n
  proof -
    assume "bit x n"
    then have "bit (take_bit 16 x) n" using assms by simp
    then show "n < 16" by (simp add: bit_take_bit_iff)
  qed
  show ?thesis
    unfolding be16_def hi_byte_def lo_byte_def mask8
    apply (rule bit_word_eqI)
    subgoal for n
      using b [of n] by (auto simp: bit_simps)
    done
qed


lemma of_nat_16: "n < 65536 \<Longrightarrow> take_bit 16 (of_nat n :: int32) = of_nat n"
  by (simp add: take_bit_of_nat take_bit_nat_eq_self)

lemma unat_of_nat_16: "n < 65536 \<Longrightarrow> unat (of_nat n :: int32) = n"
  by (simp add: unat_of_nat)

lemma unat_of_nat_8: "n < 256 \<Longrightarrow> unat (of_nat n :: byte) = n"
  by (simp add: unat_of_nat)



lemma bit_below_16:
  assumes "take_bit 16 (x :: int32) = x" and "bit x n"
  shows "n < 16"
proof -
  from assms have "bit (take_bit 16 x) n" by simp
  then show ?thesis by (simp add: bit_take_bit_iff)
qed

lemma hi_byte_div:
  assumes "take_bit 16 x = x"
  shows "(ucast (hi_byte x) :: 16 word) = of_nat (unat x div 256)"
proof -
  have "unat (drop_bit 8 x) = unat x div 256"
    by (simp add: drop_bit_eq_div unat_div_distrib)
  then have "(of_nat (unat x div 256) :: 16 word) = ucast (drop_bit 8 x)"
    by (metis of_nat_unat)
  also have "\<dots> = ucast (hi_byte x)"
    unfolding hi_byte_def mask8
    apply (rule bit_word_eqI)
    subgoal for n
      using bit_below_16 [OF assms, of "n + 8"] bit_below_16 [OF assms, of "8 + n"]
      by (auto simp: bit_simps)
    done
  finally show ?thesis by simp
qed

lemma lo_byte_mod:
  "(ucast (lo_byte x) :: 16 word) = of_nat (unat x mod 256)"
proof -
  have "unat (take_bit 8 x) = unat x mod 256"
    by (simp add: take_bit_eq_mod unat_mod_distrib)
  then have "(of_nat (unat x mod 256) :: 16 word) = ucast (take_bit 8 x)"
    by (metis of_nat_unat)
  also have "\<dots> = ucast (lo_byte x)"
    unfolding lo_byte_def mask8
    by (rule bit_word_eqI) (auto simp: bit_simps)
  finally show ?thesis by simp
qed

text \<open>
  C6. For sequence number and total below 65536, a flags byte and a payload of fewer
  than 65527 bytes, decoding the encoded packet gives back the same sequence number,
  total, flags and payload, with the checksum accepted (the result is a packet, not the
  checksum error); the encoded packet is 9 code units longer than the payload, and its
  first 9 code units are the magic 'Q', 'S', then the sequence number, the total (both
  big-endian on two bytes), the flags and the big-endian checksum of the payload.
\<close>

theorem packet_roundtrip:
  assumes "seq < 65536" and "totl < 65536" and "flags < 256" and "length payload < 65527"
  shows "decodePacket (encodePacket seq totl flags payload) = Some (Packet seq totl flags payload)
         \<and> length (encodePacket seq totl flags payload) = 9 + length payload
         \<and> take 9 (encodePacket seq totl flags payload) =
             [0x51, 0x53, of_nat (seq div 256), of_nat (seq mod 256),
              of_nat (totl div 256), of_nat (totl mod 256), of_nat flags,
              of_nat (unat (crc16 payload) div 256), of_nat (unat (crc16 payload) mod 256)]"
proof -
  let ?p = "encodePacket seq totl flags payload"
  have len: "length ?p = 9 + length payload"
    by (simp add: encodePacket_def MAGIC_def Let_def)
  have flags16: "(ucast (of_nat flags :: byte) :: 16 word) = of_nat flags"
    using assms(3) by (simp add: unsigned_of_nat take_bit_nat_eq_self)
  have hdr: "take 9 ?p =
             [0x51, 0x53, of_nat (seq div 256), of_nat (seq mod 256),
              of_nat (totl div 256), of_nat (totl mod 256), of_nat flags,
              of_nat (unat (crc16 payload) div 256), of_nat (unat (crc16 payload) mod 256)]"
    using assms
    by (simp add: encodePacket_def MAGIC_def Let_def hi_byte_div lo_byte_mod of_nat_16
        crc16_masked unat_of_nat_16 flags16)
  have bytes: "(map ucast ?p :: byte list) =
        [0x51, 0x53, hi_byte (of_nat seq), lo_byte (of_nat seq),
         hi_byte (of_nat totl), lo_byte (of_nat totl), of_nat flags,
         hi_byte (crc16 payload), lo_byte (crc16 payload)] @ payload"
    by (simp add: encodePacket_def MAGIC_def Let_def ucast_byte_roundtrip map_ucast_roundtrip
        del: map_map)
  have dec: "decodePacket ?p = Some (Packet seq totl flags payload)"
    using assms
    by (simp add: decodePacket_def len HEADER_SIZE_def MAGIC_def Let_def bytes be16_hi_lo
        of_nat_16 crc16_masked unat_of_nat_16 unat_of_nat_8 del: map_map)
  from dec len hdr show ?thesis by simp
qed

theorem packet_roundtrip_witness:
  "decodePacket (encodePacket 7 9 3 [0x41, 0x42]) = Some (Packet 7 9 3 [0x41, 0x42]) \<and>
   length (encodePacket 7 9 3 [0x41, 0x42]) = 11"
  using packet_roundtrip [of 7 9 3 "[0x41, 0x42]"] by simp

subsection \<open>Receiver and sender\<close>

lemma crc16_Nil: "crc16 [] = 0xFFFF"
  by (simp add: crc16_def)

lemma crc16_one: "crc16 [1] = 0xF1D1"
  by (simp add: crc16_def crc16_byte_def crc16_step_def funpow8)

lemma enc_single: "encodePacket 0 1 3 [] = [0x51, 0x53, 0, 0, 0, 1, 3, 0xFF, 0xFF]"
  by (simp add: encodePacket_def crc16_Nil MAGIC_def hi_byte_def lo_byte_def)

lemma dec_single: "decodePacket [0x51, 0x53, 0, 0, 0, 1, 3, 0xFF, 0xFF] = Some (Packet 0 1 3 [])"
  by (simp add: decodePacket_def HEADER_SIZE_def MAGIC_def be16_def crc16_Nil)

lemma dec_bad: "decodePacket [0x51, 0x53, 0, 5, 0, 1, 0, 0, 0, 1] = Some (ChecksumError 5)"
  by (simp add: decodePacket_def HEADER_SIZE_def MAGIC_def be16_def crc16_one)

text \<open>
  C9. A frame that \<open>receive\<close> rejects leaves the packet map and the known total as
  they were and fires no callback. A frame rejected as invalid changes nothing at all;
  a frame rejected for its checksum reports a sequence number, and the only change is
  that this number is added to the checksum-error set.
\<close>

theorem rejected_frame_state:
  assumes "receive r f = (r', evs, Inr (Rejected why s))"
  shows "packets r' = packets r \<and> totalPackets r' = totalPackets r \<and> evs = [] \<and>
         (case why of
            Invalid \<Rightarrow> r' = r
          | Checksum \<Rightarrow>
              (\<exists>k. s = Some k \<and> r' = r\<lparr> checksumErrors := set_add k (checksumErrors r) \<rparr>
                   \<and> set (checksumErrors r') = insert k (set (checksumErrors r))))"
proof (cases "decodePacket f")
  case None
  with assms show ?thesis by (auto simp: receive_def)
next
  case (Some d)
  show ?thesis
  proof (cases d)
    case (Packet sq t fl dat)
    with Some assms have False
      by (simp add: receive_def Let_def split: if_splits sum.splits)
    then show ?thesis ..
  next
    case (ChecksumError k)
    with Some assms show ?thesis by (auto simp: receive_def set_add_def)
  qed
qed

theorem rejected_frame_state_witness:
  "receive new_Receiver [0x51, 0x53, 0, 5, 0, 1, 0, 0, 0, 1]
     = (new_Receiver\<lparr> checksumErrors := [5] \<rparr>, [], Inr (Rejected Checksum (Some 5)))
   \<and> packets (new_Receiver\<lparr> checksumErrors := [5] \<rparr>) = packets new_Receiver
   \<and> totalPackets (new_Receiver\<lparr> checksumErrors := [5] \<rparr>) = totalPackets new_Receiver
   \<and> set (checksumErrors (new_Receiver\<lparr> checksumErrors := [5] \<rparr>)) = insert 5 (set (checksumErrors new_Receiver))"
proof -
  have e: "receive new_Receiver [0x51, 0x53, 0, 5, 0, 1, 0, 0, 0, 1]
     = (new_Receiver\<lparr> checksumErrors := [5] \<rparr>, [], Inr (Rejected Checksum (Some 5)))"
    by (simp add: receive_def dec_bad set_add_def new_Receiver_def)
  from rejected_frame_state [OF e] e show ?thesis by (simp add: new_Receiver_def set_add_def)
qed

text \<open>
  C10. A sender built over an empty payload, whatever its options, has no packets: the
  total is 0, the first \<open>getNextPacket\<close> returns null and leaves the sender as it was,
  and no sequence of operations makes it hand out a packet (so none with the FIRST or
  the LAST flag).
\<close>

theorem empty_payload_sender:
  "totalPackets_of (new_Sender [] options) = 0 \<and>
   spackets (new_Sender [] options) = [] \<and>
   getNextPacket (new_Sender [] options) = (None, new_Sender [] options) \<and>
   run_sender (new_Sender [] options) ops = []"
proof -
  let ?s = "new_Sender [] options"
  have c: "ceil_div 0 c = 0" for c
    by (cases "c = 0") (simp_all add: ceil_div_def)
  have p: "spackets ?s = []"
    by (simp add: new_Sender_def createPackets_def c Let_def)
  have q: "retransmitQueue ?s = []"
    by (simp add: new_Sender_def Let_def)
  have inv: "spackets s = [] \<Longrightarrow> run_sender s ops = []" for s
  proof (induction s ops rule: run_sender.induct)
    case (1 s)
    then show ?case by simp
  next
    case (2 s ops)
    then show ?case
      by (auto simp: getNextPacket_def packet_at_def split: list.splits option.splits prod.splits if_splits)
  next
    case (3 s sequences ops)
    then show ?case by (simp add: requestRetransmit_def)
  next
    case (4 s ops)
    then show ?case by (simp add: reset_sender_def)
  qed
  show ?thesis
    using p q inv [OF p] by (simp add: totalPackets_of_def getNextPacket_def)
qed

lemma single_frame_encoded: "encodePacket 0 1 3 [] = single_frame"
  by (simp add: encodePacket_def crc16_Nil MAGIC_def hi_byte_def lo_byte_def single_frame_def)

lemma single_frame_decoded: "decodePacket single_frame = Some (Packet 0 1 3 [])"
  by (simp add: decodePacket_def HEADER_SIZE_def MAGIC_def be16_def crc16_Nil single_frame_def)

lemma listening_first:
  "receive listening single_frame = (listening_done, [Complete (Some [])], Inr (Accepted 0 1))"
  by (simp add: receive_def single_frame_decoded listening_def listening_done_def
      new_Receiver_def has_def isComplete_def reassemble_def set_delete_def)

lemma listening_second:
  "receive listening_done single_frame = (listening_done, [Complete (Some [])], Inr (Accepted 0 1))"
  by (simp add: receive_def single_frame_decoded listening_def listening_done_def
      new_Receiver_def has_def isComplete_def reassemble_def set_delete_def)

text \<open>
  C3, as stated, fails: a receiver with an \<open>onComplete\<close> callback that is fed the only
  packet of a one-packet stream twice fires the callback in both calls.
\<close>

theorem on_complete_twice_counterexample:
  "completions (run_receiver listening [single_frame, single_frame]) = 2"
  by (simp add: listening_first listening_second completions_def)

lemma receive_Packet:
  assumes "decodePacket f = Some (Packet s t fl d)"
  shows "receive r f =
     (let r1 = (if \<not> has (packets r) s
                then r\<lparr> packets := packets r @ [(s, d)],
                       checksumErrors := set_delete s (checksumErrors r) \<rparr>
                else r);
          r2 = (if totalPackets r1 = None then r1\<lparr> totalPackets := Some t \<rparr> else r1);
          ev1 = (if onProgress r2
                 then [Progress (length (packets r2)) (the (totalPackets r2))
                         (getMissingSequences r2)]
                 else [])
      in if isComplete r2 \<and> onComplete r2
         then (case reassemble r2 of
                 Inl e \<Rightarrow> (r2, ev1, Inl e)
               | Inr v \<Rightarrow> (r2, ev1 @ [Complete v], Inr (Accepted s t)))
         else (r2, ev1, Inr (Accepted s t)))"
  using assms by (simp add: receive_def)

text \<open>
  C3, amended. A call of \<open>receive\<close> fires \<open>onComplete\<close> at most once, as the last
  callback of the call, and exactly when the frame is accepted, the callback is
  registered, the receiver is complete after the call and the reassembly succeeds.
  There is no latch across calls: a complete receiver that accepts a frame whose
  sequence number it already holds keeps its state and fires \<open>onComplete\<close> again with
  the same reassembly.
\<close>

theorem on_complete_per_call:
  "(\<forall>r f r' evs res v.
      receive r f = (r', evs, res) \<longrightarrow>
        completions evs \<le> 1 \<and>
        (Complete v \<in> set evs \<longleftrightarrow>
           (\<exists>s t. res = Inr (Accepted s t)) \<and> onComplete r' \<and> isComplete r' \<and>
           reassemble r' = Inr v) \<and>
        (completions evs = 1 \<longrightarrow> is_Complete (last evs))) \<and>
   (\<forall>r f s t fl d v.
      isComplete r \<and> onComplete r \<and> decodePacket f = Some (Packet s t fl d) \<and>
      has (packets r) s \<and> reassemble r = Inr v \<longrightarrow>
        fst (receive r f) = r \<and> completions (fst (snd (receive r f))) = 1 \<and>
        last (fst (snd (receive r f))) = Complete v)"
proof (intro conjI allI impI)
  fix r f r' evs res and v :: "byte list option"
  assume a: "receive r f = (r', evs, res)"
  show "completions evs \<le> 1"
  proof (cases "decodePacket f")
    case None
    with a show ?thesis by (auto simp: receive_def completions_def)
  next
    case (Some p)
    show ?thesis
    proof (cases p)
      case (Packet s t fl d)
      with Some have "decodePacket f = Some (Packet s t fl d)" by simp
      from receive_Packet [OF this, of r] a show ?thesis
        by (auto simp: Let_def completions_def split: if_splits sum.splits)
    next
      case (ChecksumError k)
      with Some a show ?thesis by (auto simp: receive_def completions_def)
    qed
  qed
next
  fix r f r' evs res and v :: "byte list option"
  assume a: "receive r f = (r', evs, res)"
  show "Complete v \<in> set evs \<longleftrightarrow>
         (\<exists>s t. res = Inr (Accepted s t)) \<and> onComplete r' \<and> isComplete r' \<and>
         reassemble r' = Inr v"
  proof (cases "decodePacket f")
    case None
    with a show ?thesis by (auto simp: receive_def)
  next
    case (Some p)
    show ?thesis
    proof (cases p)
      case (Packet s t fl d)
      with Some have "decodePacket f = Some (Packet s t fl d)" by simp
      from receive_Packet [OF this, of r] a show ?thesis
        by (auto simp: Let_def split: if_splits sum.splits)
    next
      case (ChecksumError k)
      with Some a show ?thesis by (auto simp: receive_def)
    qed
  qed
next
  fix r f r' evs res
  assume a: "receive r f = (r', evs, res)" and c: "completions evs = 1"
  show "is_Complete (last evs)"
  proof (cases "decodePacket f")
    case None
    with a c show ?thesis by (auto simp: receive_def completions_def)
  next
    case (Some p)
    show ?thesis
    proof (cases p)
      case (Packet s t fl d)
      with Some have "decodePacket f = Some (Packet s t fl d)" by simp
      from receive_Packet [OF this, of r] a c show ?thesis
        by (auto simp: Let_def completions_def split: if_splits sum.splits)
    next
      case (ChecksumError k)
      with Some a c show ?thesis by (auto simp: receive_def completions_def)
    qed
  qed
next
  fix r f s t fl d v
  assume b: "isComplete r \<and> onComplete r \<and> decodePacket f = Some (Packet s t fl d) \<and>
    has (packets r) s \<and> reassemble r = Inr v"
  then obtain y where tp: "totalPackets r = Some y"
    by (auto simp: isComplete_def split: option.splits)
  from b have d: "decodePacket f = Some (Packet s t fl d)" by simp
  have e: "receive r f = (r, (if onProgress r
                 then [Progress (length (packets r)) y (getMissingSequences r)]
                 else []) @ [Complete v], Inr (Accepted s t))"
    using b tp by (simp add: receive_Packet [OF d])
  show "fst (receive r f) = r" by (simp add: e)
  show "completions (fst (snd (receive r f))) = 1" by (simp add: e completions_def)
  show "last (fst (snd (receive r f))) = Complete v" by (simp add: e)
qed

theorem on_complete_per_call_witness:
  "receive listening single_frame = (listening_done, [Complete (Some [])], Inr (Accepted 0 1))
   \<and> completions [Complete (Some [])] \<le> 1
   \<and> fst (receive listening_done single_frame) = listening_done
   \<and> last (fst (snd (receive listening_done single_frame))) = Complete (Some [])"
proof -
  have h: "isComplete listening_done \<and> onComplete listening_done \<and>
    decodePacket single_frame = Some (Packet 0 1 3 []) \<and>
    has (packets listening_done) 0 \<and> reassemble listening_done = Inr (Some [])"
    by (simp add: single_frame_decoded listening_def listening_done_def new_Receiver_def has_def
      isComplete_def reassemble_def)
  have "fst (receive listening_done single_frame) = listening_done \<and>
        last (fst (snd (receive listening_done single_frame))) = Complete (Some [])"
    using on_complete_per_call h by blast
  moreover have "completions [Complete (Some [])] \<le> 1"
    using on_complete_per_call listening_first by blast
  ultimately show ?thesis using listening_first by simp
qed

section \<open>Properties of the encoder\<close>

subsection \<open>Version selection\<close>

lemma length_EC_BLOCKS: "length (EC_BLOCKS ec) = 40"
  by (cases ec) simp_all

lemma getDataCapacity_Some:
  "1 \<le> v \<Longrightarrow> v \<le> 40 \<Longrightarrow> \<exists>cap. getDataCapacity v ec = Some cap"
  by (auto simp: getDataCapacity_def ec_blocks_at_def length_EC_BLOCKS split: prod.splits)

lemma fits_spec_iff:
  assumes "getDataCapacity v ec = Some cap"
  shows "fits_spec len ec v \<longleftrightarrow>
         int len * 8 \<le> int cap * 8 - int (4 + (if v < 10 then 8 else 16 :: nat)) - 4"
  using assms by (auto simp: fits_spec_def count_bits_spec_def)

lemma getVersion_from_Inr:
  "1 \<le> v0 \<Longrightarrow> getVersion_from v0 len ec = Inr v \<Longrightarrow>
     v0 \<le> v \<and> v \<le> 40 \<and> fits_spec len ec v \<and> (\<forall>u. v0 \<le> u \<and> u < v \<longrightarrow> \<not> fits_spec len ec u)"
proof (induction v0 len ec rule: getVersion_from.induct)
  case (1 v0 len ec)
  from "1.prems" have le: "v0 \<le> 40"
    by (auto simp: getVersion_from.simps [of v0] split: if_splits)
  with "1.prems" obtain cap where cap: "getDataCapacity v0 ec = Some cap"
    using getDataCapacity_Some by blast
  show ?case
  proof (cases "fits_spec len ec v0")
    case True
    with "1.prems" le cap have "v = v0"
      by (simp add: getVersion_from.simps [of v0] fits_spec_iff [OF cap] Let_def)
    with True le show ?thesis by auto
  next
    case False
    with "1.prems" le cap have r: "getVersion_from (v0 + 1) len ec = Inr v"
      by (simp add: getVersion_from.simps [of v0] fits_spec_iff [OF cap] Let_def)
    from False le cap have c: "\<not> int len * 8 \<le> int cap * 8 - int (4 + (if v0 < 10 then 8 else 16 :: nat)) - 4"
      by (simp add: fits_spec_iff [OF cap])
    have ih: "v0 + 1 \<le> v \<and> v \<le> 40 \<and> fits_spec len ec v \<and>
        (\<forall>u. v0 + 1 \<le> u \<and> u < v \<longrightarrow> \<not> fits_spec len ec u)"
      using "1.IH" [OF le cap refl refl refl c _ r] by simp
    show ?thesis
    proof (intro conjI allI impI)
      fix u assume "v0 \<le> u \<and> u < v"
      then have "u = v0 \<or> (v0 + 1 \<le> u \<and> u < v)" by arith
      with False ih show "\<not> fits_spec len ec u" by blast
    qed (use ih in auto)
  qed
qed


lemma getVersion_from_Inl:
  "1 \<le> v0 \<Longrightarrow> getVersion_from v0 len ec = Inl e \<Longrightarrow>
     e = TooLong \<and> (\<forall>u. v0 \<le> u \<and> u \<le> 40 \<longrightarrow> \<not> fits_spec len ec u)"
proof (induction v0 len ec rule: getVersion_from.induct)
  case (1 v0 len ec)
  show ?case
  proof (cases "v0 \<le> 40")
    case False
    with "1.prems" show ?thesis
      by (auto simp: getVersion_from.simps [of v0])
  next
    case le: True
    with "1.prems" obtain cap where cap: "getDataCapacity v0 ec = Some cap"
      using getDataCapacity_Some by blast
    have nf: "\<not> fits_spec len ec v0"
    proof
      assume "fits_spec len ec v0"
      with "1.prems" le cap show False
        by (simp add: getVersion_from.simps [of v0] fits_spec_iff [OF cap] Let_def)
    qed
    with "1.prems" le cap have r: "getVersion_from (v0 + 1) len ec = Inl e"
      by (simp add: getVersion_from.simps [of v0] fits_spec_iff [OF cap] Let_def)
    from nf le cap have c: "\<not> int len * 8 \<le> int cap * 8 - int (4 + (if v0 < 10 then 8 else 16 :: nat)) - 4"
      by (simp add: fits_spec_iff [OF cap])
    have ih: "e = TooLong \<and> (\<forall>u. v0 + 1 \<le> u \<and> u \<le> 40 \<longrightarrow> \<not> fits_spec len ec u)"
      using "1.IH" [OF le cap refl refl refl c _ r] by simp
    show ?thesis
    proof (intro conjI allI impI)
      fix u assume "v0 \<le> u \<and> u \<le> 40"
      then have "u = v0 \<or> (v0 + 1 \<le> u \<and> u \<le> 40)" by arith
      with nf ih show "\<not> fits_spec len ec u" by blast
    qed (use ih in auto)
  qed
qed

text \<open>
  C5. \<open>getVersion\<close> returns version \<open>v\<close> exactly when \<open>v\<close> is the smallest version in
  1..40 whose capacity admits the payload, that is
  \<open>4 + count_bits v + 8 * len + 4 \<le> 8 * capacity v\<close> with a count of 8 bits up to version 9
  and of 16 bits from version 10; it fails exactly when no version in 1..40 admits the
  payload, and then with the error for a payload that is too long.
\<close>

theorem getVersion_smallest_fit:
  "(getVersion data ecLevel = Inr v \<longleftrightarrow>
      1 \<le> v \<and> v \<le> 40 \<and> fits_spec (length data) ecLevel v \<and>
      (\<forall>u. 1 \<le> u \<and> u < v \<longrightarrow> \<not> fits_spec (length data) ecLevel u)) \<and>
   ((\<exists>e. getVersion data ecLevel = Inl e) \<longleftrightarrow>
      \<not> (\<exists>u. 1 \<le> u \<and> u \<le> 40 \<and> fits_spec (length data) ecLevel u)) \<and>
   getVersion data ecLevel \<noteq> Inl TypeError"
proof -
  let ?g = "getVersion data ecLevel"
  let ?fits = "fits_spec (length data) ecLevel"
  have g: "?g = getVersion_from 1 (length data) ecLevel" by (simp add: getVersion_def)
  have inr: "?g = Inr w \<Longrightarrow> 1 \<le> w \<and> w \<le> 40 \<and> ?fits w \<and> (\<forall>u. 1 \<le> u \<and> u < w \<longrightarrow> \<not> ?fits u)" for w
    using getVersion_from_Inr [of 1 "length data" ecLevel w] g by simp
  have inl: "?g = Inl e \<Longrightarrow> e = TooLong \<and> (\<forall>u. 1 \<le> u \<and> u \<le> 40 \<longrightarrow> \<not> ?fits u)" for e
    using getVersion_from_Inl [of 1 "length data" ecLevel e] g by simp
  have a: "?g = Inr v" if h: "1 \<le> v \<and> v \<le> 40 \<and> ?fits v \<and> (\<forall>u. 1 \<le> u \<and> u < v \<longrightarrow> \<not> ?fits u)"
  proof (cases ?g)
    case (Inl e)
    with inl [OF Inl] h show ?thesis by blast
  next
    case (Inr w)
    from inr [OF Inr] h have "\<not> w < v" "\<not> v < w" by blast+
    then have "w = v" by arith
    with Inr show ?thesis by simp
  qed
  have b: "\<exists>e. ?g = Inl e" if h: "\<not> (\<exists>u. 1 \<le> u \<and> u \<le> 40 \<and> ?fits u)"
  proof (cases ?g)
    case (Inl e)
    then show ?thesis by blast
  next
    case (Inr w)
    with inr [OF Inr] h show ?thesis by blast
  qed
  have c: "?g \<noteq> Inl TypeError" using inl by fastforce
  show ?thesis using a b c inr inl by blast
qed

theorem getVersion_smallest_fit_witness:
  "getVersion (replicate 18 65) L = Inr 2 \<and> fits_spec 18 L 2 \<and> \<not> fits_spec 18 L 1"
proof -
  have f2: "fits_spec 18 L 2"
    by (simp add: fits_spec_def getDataCapacity_def ec_blocks_at_def count_bits_spec_def)
  have f1: "\<not> fits_spec 18 L 1"
    by (simp add: fits_spec_def getDataCapacity_def ec_blocks_at_def count_bits_spec_def)
  have "\<not> fits_spec 18 L u" if "1 \<le> u \<and> u < 2" for u
  proof -
    from that have "u = 1" by arith
    with f1 show ?thesis by simp
  qed
  with f1 f2 show ?thesis
    using getVersion_smallest_fit [of "replicate 18 65" L 2] by simp
qed

subsection \<open>The format information table\<close>

lemma format_info_table:
  "map (format_word_spec 0x5412 ec) [0, 1, 2, 3, 4, 5, 6, 7] = FORMAT_INFO ec"
  by (cases ec)
    (simp_all add: format_word_spec_def ec_code_spec_def bch_15_5_spec_def bch_step_spec_def
       bit_of_def)

text \<open>
  C2, as stated, fails: with the XOR constant 0x5426 the word computed for level M and
  mask 0 is 0x5426, and the table holds 0x5412.
\<close>

theorem format_info_xor_counterexample:
  "FORMAT_INFO M ! 0 \<noteq> format_word_spec 0x5426 M 0"
  by (simp add: format_word_spec_def ec_code_spec_def bch_15_5_spec_def bch_step_spec_def
      bit_of_def)

text \<open>
  C2, amended. For every error-correction level and every mask index below 8, the entry
  of \<open>FORMAT_INFO\<close> is the BCH(15,5) code word (generator 0x537) of the 5-bit word made
  of the level's code (L:01, M:00, Q:11, H:10) and the mask index, XORed with 0x5412.
\<close>

theorem format_info_is_bch:
  assumes "m < 8"
  shows "FORMAT_INFO ec ! m = format_word_spec 0x5412 ec m"
proof -
  have "FORMAT_INFO ec ! m = map (format_word_spec 0x5412 ec) [0, 1, 2, 3, 4, 5, 6, 7] ! m"
    by (simp only: format_info_table)
  also have "\<dots> = format_word_spec 0x5412 ec ([0, 1, 2, 3, 4, 5, 6, 7] ! m)"
    using assms by (intro nth_map) simp
  also have "[0, 1, 2, 3, 4, 5, 6, 7] ! m = m"
  proof -
    from assms have "m = 0 \<or> m = 1 \<or> m = 2 \<or> m = 3 \<or> m = 4 \<or> m = 5 \<or> m = 6 \<or> m = 7"
      by arith
    then show ?thesis by auto
  qed
  finally show ?thesis .
qed

theorem format_info_is_bch_witness:
  "FORMAT_INFO Q ! 5 = format_word_spec 0x5412 Q 5 \<and> FORMAT_INFO Q ! 5 = 0x2183"
  using format_info_is_bch [of 5 Q] by simp

subsection \<open>The module grid stays square\<close>

lemma square_nth: "square n m \<Longrightarrow> r < n \<Longrightarrow> length (m ! r) = n"
  by (auto simp: square_def list_all_length)

lemma square_update:
  assumes "square n m" and "r < n"
  shows "square n (m[r := (m ! r)[c := v]])"
  using assms by (auto simp: square_def list_all_length nth_list_update)

lemma cell_set_ok:
  assumes "square n m" and "r < n" and "c < n"
  shows "\<exists>m'. cell_set m r c v = Some m' \<and> square n m'"
  using assms square_nth [OF assms(1,2)] square_update [OF assms(1,2)]
  by (auto simp: cell_set_def square_def)

lemma cell_get_ok:
  assumes "square n m" and "r < n" and "c < n"
  shows "\<exists>x. cell_get m r c = Some x"
  using assms square_nth [OF assms(1,2)] by (auto simp: cell_get_def square_def)

lemma mark_ok:
  assumes "grid_ok n q" and "r < n" and "c < n"
  shows "\<exists>q'. mark q r c v = Some q' \<and> grid_ok n q'"
proof -
  from assms obtain m' where m: "cell_set (matrix q) r c v = Some m'" "square n m'"
    using cell_set_ok [of n "matrix q" r c v] by (auto simp: grid_ok_def)
  from assms obtain rs' where rs: "cell_set (reserved q) r c True = Some rs'" "square n rs'"
    using cell_set_ok [of n "reserved q" r c True] by (auto simp: grid_ok_def)
  from m rs assms(1) show ?thesis by (simp add: mark_def grid_ok_def)
qed

lemma mark_at_ok:
  assumes "grid_ok n q" and "0 \<le> r" and "r < int n" and "0 \<le> c" and "c < int n"
  shows "\<exists>q'. mark_at q r c v = Some q' \<and> grid_ok n q'"
proof -
  from assms have "nat r < n" "nat c < n" by auto
  from mark_ok [OF assms(1) this] assms(2,4) show ?thesis by (simp add: mark_at_def)
qed

lemma foldM_ok:
  assumes "\<And>x s. x \<in> set xs \<Longrightarrow> I s \<Longrightarrow> \<exists>s'. f x s = Some s' \<and> I s'"
    and "I s"
  shows "\<exists>s'. foldM f xs s = Some s' \<and> I s'"
  using assms
proof (induction xs arbitrary: s)
  case Nil
  then show ?case by simp
next
  case (Cons x xs)
  from Cons.prems(1) [of x s] Cons.prems(2) obtain s1 where s1: "f x s = Some s1" "I s1"
    by auto
  have "\<exists>s'. foldM f xs s1 = Some s' \<and> I s'"
    by (rule Cons.IH) (use Cons.prems(1) s1 in auto)
  with s1 show ?case by simp
qed

lemma addFinderPattern_ok:
  assumes "grid_ok n q"
  shows "\<exists>q'. addFinderPattern q row col = Some q' \<and> grid_ok n q'"
  unfolding addFinderPattern_def
proof (rule foldM_ok [where I = "grid_ok n"])
  fix x :: "int \<times> int" and s
  assume g: "grid_ok n s"
  obtain r c where x: "x = (r, c)" by (cases x)
  from g have len: "length (matrix s) = n" by (simp add: grid_ok_def square_def)
  show "\<exists>s'. (case x of (r, c) \<Rightarrow> \<lambda>q.
            let nr = int row + r; nc = int col + c in
            if nr < 0 \<or> nr \<ge> int (length (matrix q)) \<or> nc < 0 \<or> nc \<ge> int (length (matrix q))
            then Some q
            else
              let val = (if r \<ge> 0 \<and> r \<le> 6 \<and> c \<ge> 0 \<and> c \<le> 6 \<and>
                            (r = 0 \<or> r = 6 \<or> c = 0 \<or> c = 6 \<or>
                             (r \<ge> 2 \<and> r \<le> 4 \<and> c \<ge> 2 \<and> c \<le> 4))
                         then 1 else 0)
              in mark_at q nr nc val) s = Some s' \<and> grid_ok n s'"
  proof (cases "int row + r < 0 \<or> int row + r \<ge> int n \<or> int col + c < 0 \<or> int col + c \<ge> int n")
    case True
    with g len x show ?thesis by (simp add: Let_def)
  next
    case False
    then have "0 \<le> int row + r" "int row + r < int n" "0 \<le> int col + c" "int col + c < int n"
      by auto
    from mark_at_ok [OF g this] False len x show ?thesis by (simp add: Let_def)
  qed
qed (rule assms)

lemma anyM_ok:
  assumes "\<And>x. x \<in> set xs \<Longrightarrow> \<exists>b. f x = Some b"
  shows "\<exists>b. anyM f xs = Some b"
  using assms
proof (induction xs)
  case Nil
  then show ?case by auto
next
  case (Cons x xs)
  from Cons.prems [of x] obtain b where b: "f x = Some b" by auto
  from Cons.IH Cons.prems obtain b' where "anyM f xs = Some b'" by auto
  with b show ?case by (cases b) auto
qed

lemma addAlignmentPattern_ok:
  assumes g: "grid_ok n q" and r: "2 \<le> row" "row + 2 < n" and c: "2 \<le> col" "col + 2 < n"
  shows "\<exists>q'. addAlignmentPattern q row col = Some q' \<and> grid_ok n q'"
proof -
  from g have len: "length (matrix q) = n" and sq: "square n (reserved q)"
    by (simp_all add: grid_ok_def square_def)
  let ?chk = "\<lambda>(r, c).
                   let nr = int row + r; nc = int col + c in
                   if nr < 0 \<or> nr \<ge> int (length (matrix q)) \<or> nc < 0 \<or> nc \<ge> int (length (matrix q))
                   then Some False
                   else cell_get (reserved q) (nat nr) (nat nc)"
  have "\<exists>b. anyM ?chk (List.product [-2..2] [-2..2]) = Some b"
  proof (rule anyM_ok)
    fix x :: "int \<times> int"
    obtain a b where x: "x = (a, b)" by (cases x)
    show "\<exists>b. ?chk x = Some b"
    proof (cases "int row + a < 0 \<or> int row + a \<ge> int n \<or> int col + b < 0 \<or> int col + b \<ge> int n")
      case True
      with len x show ?thesis by (auto simp: Let_def)
    next
      case False
      then have "nat (int row + a) < n" "nat (int col + b) < n" by auto
      from cell_get_ok [OF sq this] False len x show ?thesis by (simp add: Let_def)
    qed
  qed
  then obtain b where b: "anyM ?chk (List.product [-2..2] [-2..2]) = Some b" ..
  show ?thesis
  proof (cases b)
    case True
    with b g show ?thesis by (simp add: addAlignmentPattern_def)
  next
    case False
    have "\<exists>q'. foldM (\<lambda>(r, c) q.
                   let nr = int row + r; nc = int col + c;
                       val = (if \<bar>r\<bar> = 2 \<or> \<bar>c\<bar> = 2 \<or> (r = 0 \<and> c = 0) then 1 else 0)
                   in mark_at q nr nc val)
            (List.product [-2..2] [-2..2]) q = Some q' \<and> grid_ok n q'"
    proof (rule foldM_ok [where I = "grid_ok n"])
      fix x :: "int \<times> int" and s
      assume m: "x \<in> set (List.product [-2..2] [-2..2])" and gs: "grid_ok n s"
      obtain a b where x: "x = (a, b)" by (cases x)
      with m have "-2 \<le> a" "a \<le> 2" "-2 \<le> b" "b \<le> 2" by auto
      with r c have "0 \<le> int row + a" "int row + a < int n" "0 \<le> int col + b" "int col + b < int n"
        by auto
      from mark_at_ok [OF gs this] x
      show "\<exists>s'. (case x of (r, c) \<Rightarrow> \<lambda>q.
                   let nr = int row + r; nc = int col + c;
                       val = (if \<bar>r\<bar> = 2 \<or> \<bar>c\<bar> = 2 \<or> (r = 0 \<and> c = 0) then 1 else 0)
                   in mark_at q nr nc val) s = Some s' \<and> grid_ok n s'"
        by (simp add: Let_def)
    qed (rule g)
    with b False show ?thesis by (simp add: addAlignmentPattern_def)
  qed
qed

lemma alignment_table_inside:
  "list_all (\<lambda>(v, ps). positions_inside v ps) (zip [1..<41] ALIGNMENT_POSITIONS)"
  by code_simp

lemma length_ALIGNMENT_POSITIONS: "length ALIGNMENT_POSITIONS = 40"
  by (simp add: ALIGNMENT_POSITIONS_def)

lemma alignment_positions_inside:
  assumes "1 \<le> v" and "v \<le> 40" and "p \<in> set (ALIGNMENT_POSITIONS ! (v - 1))"
  shows "6 \<le> p \<and> p + 7 \<le> 4 * v + 17"
proof -
  have i: "v - 1 < length (zip [1..<41] ALIGNMENT_POSITIONS)"
    using assms by (simp add: length_ALIGNMENT_POSITIONS)
  have "zip [1..<41] ALIGNMENT_POSITIONS ! (v - 1) = (v, ALIGNMENT_POSITIONS ! (v - 1))"
    using assms by (simp add: length_ALIGNMENT_POSITIONS)
  with alignment_table_inside i have "positions_inside v (ALIGNMENT_POSITIONS ! (v - 1))"
    by (auto simp: list_all_length)
  with assms(3) show ?thesis by (auto simp: positions_inside_def list_all_iff)
qed

lemma addAlignmentPatterns_ok:
  assumes g: "grid_ok (4 * v + 17) q" and v: "1 \<le> v" "v \<le> 40"
  shows "\<exists>q'. addAlignmentPatterns q v = Some q' \<and> grid_ok (4 * v + 17) q'"
proof (cases "v \<ge> 2")
  case False
  with g show ?thesis by (simp add: addAlignmentPatterns_def)
next
  case True
  let ?ps = "ALIGNMENT_POSITIONS ! (v - 1)"
  have "\<exists>q'. foldM (\<lambda>(r, c) q. addAlignmentPattern q r c) (List.product ?ps ?ps) q = Some q'
          \<and> grid_ok (4 * v + 17) q'"
  proof (rule foldM_ok [where I = "grid_ok (4 * v + 17)"])
    fix x :: "nat \<times> nat" and s
    assume m: "x \<in> set (List.product ?ps ?ps)" and gs: "grid_ok (4 * v + 17) s"
    obtain a b where x: "x = (a, b)" by (cases x)
    with m have "a \<in> set ?ps" "b \<in> set ?ps" by auto
    from alignment_positions_inside [OF v this(1)] alignment_positions_inside [OF v this(2)]
    have "2 \<le> a" "a + 2 < 4 * v + 17" "2 \<le> b" "b + 2 < 4 * v + 17" by auto
    from addAlignmentPattern_ok [OF gs this] x
    show "\<exists>s'. (case x of (r, c) \<Rightarrow> \<lambda>q. addAlignmentPattern q r c) s = Some s'
            \<and> grid_ok (4 * v + 17) s'"
      by simp
  qed (rule g)
  with True v show ?thesis
    by (simp add: addAlignmentPatterns_def length_ALIGNMENT_POSITIONS Let_def)
qed

lemma addTimingPatterns_ok:
  assumes g: "grid_ok n q" and n: "7 \<le> n"
  shows "\<exists>q'. addTimingPatterns q n = Some q' \<and> grid_ok n q'"
  unfolding addTimingPatterns_def
proof (rule foldM_ok [where I = "grid_ok n"])
  fix i s
  assume m: "i \<in> set [8..<n - 8]" and gs: "grid_ok n s"
  then have i: "i < n" "6 < n" using n by auto
  from mark_ok [OF gs i(2) i(1)] obtain q1 where
    q1: "mark s 6 i ((i + 1) mod 2) = Some q1" "grid_ok n q1" by blast
  from mark_ok [OF q1(2) i(1) i(2)] obtain q2 where
    q2: "mark q1 i 6 ((i + 1) mod 2) = Some q2" "grid_ok n q2" by blast
  from q1 q2 show "\<exists>s'. (let val = (i + 1) mod 2 in
                    case mark s 6 i val of None \<Rightarrow> None | Some q1 \<Rightarrow> mark q1 i 6 val) = Some s'
                  \<and> grid_ok n s'"
    by (simp add: Let_def)
qed (rule g)

lemma addVersionInfo_ok:
  assumes g: "grid_ok n q" and n: "11 \<le> n"
  shows "\<exists>q'. addVersionInfo q n version = Some q' \<and> grid_ok n q'"
proof (cases "version < 7")
  case True
  with g show ?thesis by (simp add: addVersionInfo_def)
next
  case False
  define info where "info = (if version - 7 < length VERSION_INFO then VERSION_INFO ! (version - 7) else 0)"
  have a: "\<exists>q1. foldM (\<lambda>(i, j) q. mark_at q (int n - 11 + int j) (int i) (bit_of info (i * 3 + j)))
                  (List.product [0..<6] [0..<3]) q = Some q1 \<and> grid_ok n q1"
  proof (rule foldM_ok [where I = "grid_ok n"])
    fix x :: "nat \<times> nat" and s
    assume m: "x \<in> set (List.product [0..<6] [0..<3])" and gs: "grid_ok n s"
    obtain i j where x: "x = (i, j)" by (cases x)
    with m n have "0 \<le> int n - 11 + int j" "int n - 11 + int j < int n" "0 \<le> int i" "int i < int n"
      by auto
    from mark_at_ok [OF gs this] x
    show "\<exists>s'. (case x of (i, j) \<Rightarrow> \<lambda>q. mark_at q (int n - 11 + int j) (int i) (bit_of info (i * 3 + j))) s
             = Some s' \<and> grid_ok n s'"
      by simp
  qed (rule g)
  then obtain q1 where q1: "foldM (\<lambda>(i, j) q. mark_at q (int n - 11 + int j) (int i) (bit_of info (i * 3 + j)))
                  (List.product [0..<6] [0..<3]) q = Some q1" "grid_ok n q1" by blast
  have b: "\<exists>q2. foldM (\<lambda>(i, j) q. mark_at q (int i) (int n - 11 + int j) (bit_of info (i * 3 + j)))
                  (List.product [0..<6] [0..<3]) q1 = Some q2 \<and> grid_ok n q2"
  proof (rule foldM_ok [where I = "grid_ok n"])
    fix x :: "nat \<times> nat" and s
    assume m: "x \<in> set (List.product [0..<6] [0..<3])" and gs: "grid_ok n s"
    obtain i j where x: "x = (i, j)" by (cases x)
    with m n have "0 \<le> int i" "int i < int n" "0 \<le> int n - 11 + int j" "int n - 11 + int j < int n"
      by auto
    from mark_at_ok [OF gs this] x
    show "\<exists>s'. (case x of (i, j) \<Rightarrow> \<lambda>q. mark_at q (int i) (int n - 11 + int j) (bit_of info (i * 3 + j))) s
             = Some s' \<and> grid_ok n s'"
      by simp
  qed (rule q1(2))
  with q1 False show ?thesis
    by (simp add: addVersionInfo_def Let_def info_def)
qed

lemma format_cells_inside:
  assumes n: "9 \<le> n" and m: "(r, c, v) \<in> set (format_cells n info)"
  shows "0 \<le> r \<and> r < int n \<and> 0 \<le> c \<and> c < int n"
  using assms by (auto simp: format_cells_def)

lemma addFormatInfo_ok:
  assumes g: "grid_ok n q" and n: "9 \<le> n"
  shows "\<exists>q'. addFormatInfo q n ecLevel msk = Some q' \<and> grid_ok n q'"
  unfolding addFormatInfo_def
proof (rule foldM_ok [where I = "grid_ok n"])
  fix x :: "int \<times> int \<times> nat" and s
  assume m: "x \<in> set (format_cells n (format_info ecLevel msk))" and gs: "grid_ok n s"
  obtain r c v where x: "x = (r, c, v)" by (cases x)
  from format_cells_inside [OF n m [unfolded x]]
  have "0 \<le> r" "r < int n" "0 \<le> c" "c < int n" by auto
  from mark_at_ok [OF gs this] x
  show "\<exists>s'. (case x of (r, c, v) \<Rightarrow> \<lambda>q. mark_at q r c v) s = Some s' \<and> grid_ok n s'"
    by simp
qed (rule g)

lemma place_cell_ok:
  assumes g: "grid_ok n (fst st)" and r: "r < n" and c: "0 \<le> c" "c < int n"
  shows "\<exists>st'. place_cell bits r c st = Some st' \<and> grid_ok n (fst st')"
proof -
  obtain q bitIndex where st: "st = (q, bitIndex)" by (cases st)
  from g st have gq: "grid_ok n q" by simp
  from c have cn: "nat c < n" by auto
  from gq have sr: "square n (reserved q)" and sm: "square n (matrix q)"
    by (simp_all add: grid_ok_def)
  from cell_get_ok [OF sr r cn] obtain b where b: "cell_get (reserved q) r (nat c) = Some b" ..
  show ?thesis
  proof (cases b)
    case True
    with b st c gq show ?thesis by (simp add: place_cell_def)
  next
    case False
    from cell_set_ok [OF sm r cn] obtain m' where
      m': "cell_set (matrix q) r (nat c) (if bitIndex < length bits then bits ! bitIndex else 0) = Some m'"
        "square n m'" by blast
    with b False st c gq show ?thesis by (simp add: place_cell_def grid_ok_def)
  qed
qed

lemma place_strip_ok:
  assumes g: "grid_ok n (fst st)" and c: "1 \<le> col" "col < int n"
  shows "\<exists>st'. place_strip bits n col upward st = Some st' \<and> grid_ok n (fst st')"
  unfolding place_strip_def
proof (rule foldM_ok [where I = "\<lambda>st. grid_ok n (fst st)"])
  fix x :: "nat \<times> nat" and s :: "qr \<times> nat"
  assume m: "x \<in> set (List.product [0..<n] [0..<2])" and gs: "grid_ok n (fst s)"
  obtain row k where x: "x = (row, k)" by (cases x)
  with m have row: "row < n" and k: "k < 2" by auto
  from row have ar: "(if upward then n - 1 - row else row) < n" by auto
  from k c have cc: "0 \<le> col - int k" "col - int k < int n" by auto
  from place_cell_ok [OF gs ar cc] x
  show "\<exists>s'. (case x of (row, c) \<Rightarrow> \<lambda>st.
              let actualRow = (if upward then n - 1 - row else row)
              in place_cell bits actualRow (col - int c) st) s = Some s' \<and> grid_ok n (fst s')"
    by (simp add: Let_def)
qed (rule g)

lemma place_cols_ok:
  "grid_ok n (fst st) \<Longrightarrow> col_inv n col \<Longrightarrow> 6 \<le> n \<Longrightarrow>
     \<exists>st'. place_cols bits n col upward st = Some st' \<and> grid_ok n (fst st')"
proof (induction bits n col upward st rule: place_cols.induct)
  case (1 bits n col upward st)
  show ?case
  proof (cases "col \<ge> 0")
    case False
    with "1.prems" show ?thesis by (simp add: place_cols.simps [of bits n col])
  next
    case True
    define col' where "col' = (if col = 6 then 5 else col)"
    from True "1.prems"(2,3) have c': "1 \<le> col'" "col' < int n"
      by (auto simp: col'_def col_inv_def)
    from True "1.prems"(2) have nxt: "col_inv n (col' - 2)"
      by (auto simp: col'_def col_inv_def)
    from place_strip_ok [OF "1.prems"(1) c'] obtain st1 where
      st1: "place_strip bits n col' upward st = Some st1" "grid_ok n (fst st1)" by blast
    from "1.IH" [OF True col'_def st1(1) st1(2) nxt "1.prems"(3)] st1 True
    show ?thesis by (simp add: place_cols.simps [of bits n col] col'_def Let_def)
  qed
qed

lemma placeData_ok:
  assumes g: "grid_ok n q" and n: "7 \<le> n" "odd n"
  shows "\<exists>q'. placeData q n dat = Some q' \<and> grid_ok n q'"
proof -
  from n have "col_inv n (int n - 1)" by (auto simp: col_inv_def)
  from place_cols_ok [of n "(q, 0)" "int n - 1" "concat (map (bits_msb 8) dat)" True] g this n
  obtain st' where "place_cols (concat (map (bits_msb 8) dat)) n (int n - 1) True (q, 0) = Some st'"
    "grid_ok n (fst st')" by auto
  then show ?thesis by (cases st') (simp add: placeData_def Let_def)
qed

lemma length_maskFunctions: "length maskFunctions = 8"
  by (simp add: maskFunctions_def)

lemma applyMask_ok:
  assumes g: "grid_ok n q" and k: "msk < 8"
  shows "\<exists>q'. applyMask q n msk = Some q' \<and> grid_ok n q'"
proof -
  let ?fn = "maskFunctions ! msk"
  have "\<exists>q'. foldM (\<lambda>(r, c) q.
                 case cell_get (reserved q) r c of
                   None \<Rightarrow> None
                 | Some rsv \<Rightarrow>
                     if \<not> rsv \<and> ?fn r c
                     then (case cell_get (matrix q) r c of
                             None \<Rightarrow> None
                           | Some x \<Rightarrow>
                               (case cell_set (matrix q) r c (flip_module x) of
                                  None \<Rightarrow> None
                                | Some m \<Rightarrow> Some (q\<lparr> matrix := m \<rparr>)))
                     else Some q)
          (List.product [0..<n] [0..<n]) q = Some q' \<and> grid_ok n q'"
  proof (rule foldM_ok [where I = "grid_ok n"])
    fix x :: "nat \<times> nat" and s
    assume m: "x \<in> set (List.product [0..<n] [0..<n])" and gs: "grid_ok n s"
    obtain r c where x: "x = (r, c)" by (cases x)
    with m have rc: "r < n" "c < n" by auto
    from gs have sr: "square n (reserved s)" and sm: "square n (matrix s)"
      by (simp_all add: grid_ok_def)
    from cell_get_ok [OF sr rc] obtain b where b: "cell_get (reserved s) r c = Some b" ..
    from cell_get_ok [OF sm rc] obtain y where y: "cell_get (matrix s) r c = Some y" ..
    from cell_set_ok [OF sm rc] obtain m' where
      m': "cell_set (matrix s) r c (flip_module y) = Some m'" "square n m'" by blast
    from b y m' gs x
    show "\<exists>s'. (case x of (r, c) \<Rightarrow> \<lambda>q.
                 case cell_get (reserved q) r c of
                   None \<Rightarrow> None
                 | Some rsv \<Rightarrow>
                     if \<not> rsv \<and> ?fn r c
                     then (case cell_get (matrix q) r c of
                             None \<Rightarrow> None
                           | Some x \<Rightarrow>
                               (case cell_set (matrix q) r c (flip_module x) of
                                  None \<Rightarrow> None
                                | Some m \<Rightarrow> Some (q\<lparr> matrix := m \<rparr>)))
                     else Some q) s = Some s' \<and> grid_ok n s'"
      by (simp add: grid_ok_def)
  qed (rule g)
  with k show ?thesis by (simp add: applyMask_def length_maskFunctions Let_def)
qed

lemma createMatrix_ok: "grid_ok (4 * v + 17) (createMatrix v)"
  by (simp add: createMatrix_def grid_ok_def square_def Let_def list_all_length mult.commute)

lemma candidate_ok:
  assumes v: "1 \<le> v" "v \<le> 40" and k: "msk < 8"
  shows "\<exists>q. candidate v ecLevel finalData msk = Some q \<and> grid_ok (4 * v + 17) q"
proof -
  let ?n = "4 * v + 17"
  have sz: "qsize (createMatrix v) = ?n" by (simp add: createMatrix_def Let_def)
  have n: "7 \<le> ?n" "11 \<le> ?n" "9 \<le> ?n" "odd ?n" by simp_all
  from addFinderPattern_ok [OF createMatrix_ok] obtain q1 where
    q1: "addFinderPattern (createMatrix v) 0 0 = Some q1" "grid_ok ?n q1" by blast
  from addFinderPattern_ok [OF q1(2)] obtain q2 where
    q2: "addFinderPattern q1 0 (?n - 7) = Some q2" "grid_ok ?n q2" by blast
  from addFinderPattern_ok [OF q2(2)] obtain q3 where
    q3: "addFinderPattern q2 (?n - 7) 0 = Some q3" "grid_ok ?n q3" by blast
  from addAlignmentPatterns_ok [OF q3(2) v] obtain q4 where
    q4: "addAlignmentPatterns q3 v = Some q4" "grid_ok ?n q4" by blast
  from addTimingPatterns_ok [OF q4(2) n(1)] obtain q5 where
    q5: "addTimingPatterns q4 ?n = Some q5" "grid_ok ?n q5" by blast
  from addVersionInfo_ok [OF q5(2) n(2)] obtain q6 where
    q6: "addVersionInfo q5 ?n v = Some q6" "grid_ok ?n q6" by blast
  from addFormatInfo_ok [OF q6(2) n(3)] obtain q7 where
    q7: "addFormatInfo q6 ?n ecLevel msk = Some q7" "grid_ok ?n q7" by blast
  from placeData_ok [OF q7(2) n(1) n(4)] obtain q8 where
    q8: "placeData q7 ?n finalData = Some q8" "grid_ok ?n q8" by blast
  from applyMask_ok [OF q8(2) k] obtain q9 where
    q9: "applyMask q8 ?n msk = Some q9" "grid_ok ?n q9" by blast
  from q1 q2 q3 q4 q5 q6 q7 q8 q9 sz show ?thesis
    by (simp add: candidate_def Let_def)
qed

subsection \<open>The mask loop and the result of generate\<close>

lemma foldM_snoc:
  "foldM f (xs @ [x]) s = (case foldM f xs s of None \<Rightarrow> None | Some s' \<Rightarrow> f x s')"
  by (induction xs arbitrary: s) (auto split: option.splits)

lemma mask_loop:
  assumes c: "\<And>k. k < 8 \<Longrightarrow> candidate v ec fd k = Some (c k)"
    and p: "\<And>k. p k = scorePenalty (matrix (c k)) (qsize (c k))"
  shows "0 < n \<Longrightarrow> n \<le> 8 \<Longrightarrow>
     \<exists>k. first_min p n k \<and> foldM (mask_step v ec fd) [0..<n] None = Some (Some (matrix (c k), p k))"
proof (induction n)
  case 0
  then show ?case by simp
next
  case (Suc n)
  show ?case
  proof (cases "n = 0")
    case True
    have "mask_step v ec fd 0 None = Some (Some (matrix (c 0), p 0))"
      using c [of 0] p [of 0] by (simp add: mask_step_def Let_def)
    moreover have "first_min p (Suc 0) 0" by (simp add: first_min_def)
    ultimately show ?thesis using True by auto
  next
    case False
    with Suc obtain k where k: "first_min p n k"
      "foldM (mask_step v ec fd) [0..<n] None = Some (Some (matrix (c k), p k))" by auto
    from Suc.prems have n8: "n < 8" by simp
    have step: "mask_step v ec fd n (Some (matrix (c k), p k)) =
        Some (if p n < p k then Some (matrix (c n), p n) else Some (matrix (c k), p k))"
      using c [OF n8] p [of n] by (simp add: mask_step_def Let_def)
    have fold: "foldM (mask_step v ec fd) [0..<Suc n] None =
        Some (if p n < p k then Some (matrix (c n), p n) else Some (matrix (c k), p k))"
      using k(2) step by (simp add: foldM_snoc)
    show ?thesis
    proof (cases "p n < p k")
      case True
      from k(1) True have "first_min p (Suc n) n"
        by (auto simp: first_min_def less_Suc_eq intro: less_le_trans le_less_trans)
      with fold True show ?thesis by auto
    next
      case False
      from k(1) False have "first_min p (Suc n) k"
        by (auto simp: first_min_def less_Suc_eq)
      with fold False show ?thesis by auto
    qed
  qed
qed

lemma getVersion_range:
  assumes "getVersion text ec = Inr v"
  shows "1 \<le> v \<and> v \<le> 40"
  using getVersion_from_Inr [of 1 "length text" ec v] assms by (simp add: getVersion_def)

lemma encodeData_Some:
  assumes "1 \<le> v" and "v \<le> 40"
  shows "\<exists>db. encodeData text v ec = Some db"
  using getDataCapacity_Some [OF assms, of ec] by (auto simp: encodeData_def Let_def)

lemma addErrorCorrection_Some:
  assumes "1 \<le> v" and "v \<le> 40"
  shows "\<exists>fd. addErrorCorrection db v ec = Some fd"
  using assms
  by (auto simp: addErrorCorrection_def ec_blocks_at_def length_EC_BLOCKS Let_def split: prod.splits)

text \<open>What \<open>generate\<close> returns for a payload that has a version.\<close>

lemma generate_result:
  assumes gv: "getVersion text ec = Inr v"
  shows "\<exists>k m. first_min (\<lambda>j. code_penalty (the (masked_matrix text ec j))) 8 k \<and>
           (\<forall>j<8. \<exists>mj. masked_matrix text ec j = Some mj \<and> square (4 * v + 17) mj) \<and>
           masked_matrix text ec k = Some m \<and>
           generate text ec = Inr [(''matrix'', JMatrix m), (''size'', JNumber (4 * v + 17))]"
proof -
  let ?n = "4 * v + 17"
  from getVersion_range [OF gv] have v: "1 \<le> v" "v \<le> 40" by auto
  from encodeData_Some [OF v] obtain db where db: "encodeData text v ec = Some db" ..
  from addErrorCorrection_Some [OF v] obtain fd where fd: "addErrorCorrection db v ec = Some fd" ..
  define c where "c k = the (candidate v ec fd k)" for k
  have c: "candidate v ec fd k = Some (c k)" and g: "grid_ok ?n (c k)" if "k < 8" for k
    using candidate_ok [OF v that, of ec fd] by (auto simp: c_def)
  have mm: "masked_matrix text ec k = Some (matrix (c k))" if "k < 8" for k
    using gv db fd c [OF that] by (simp add: masked_matrix_def)
  define p where "p k = scorePenalty (matrix (c k)) (qsize (c k))" for k
  have pk: "p k = code_penalty (the (masked_matrix text ec k))" if "k < 8" for k
    using mm [OF that] g [OF that] by (simp add: p_def code_penalty_def grid_ok_def square_def)
  from mask_loop [of v ec fd c p 8, OF c] obtain k where
    k: "first_min p 8 k"
    "foldM (mask_step v ec fd) [0..<8] None = Some (Some (matrix (c k), p k))"
    by (auto simp: p_def)
  from k(1) have k8: "k < 8" by (simp add: first_min_def)
  from k(1) pk have fm: "first_min (\<lambda>j. code_penalty (the (masked_matrix text ec j))) 8 k"
    by (auto simp: first_min_def)
  from g [OF k8] have len: "length (matrix (c k)) = ?n" by (simp add: grid_ok_def square_def)
  have gen: "generate text ec = Inr [(''matrix'', JMatrix (matrix (c k))), (''size'', JNumber ?n)]"
    using gv db fd k(2) len by (simp add: generate_def)
  have all: "\<forall>j<8. \<exists>mj. masked_matrix text ec j = Some mj \<and> square ?n mj"
    using mm g by (auto simp: grid_ok_def)
  from fm all mm [OF k8] gen show ?thesis by blast
qed

lemma getVersion_A: "getVersion [65] L = Inr 1"
  by (simp add: getVersion_def getVersion_from.simps [of 1] getDataCapacity_def ec_blocks_at_def)

text \<open>
  C4, as stated, fails: for the one-byte payload "A" at level L, which fits version 1,
  the record \<open>generate\<close> returns has a \<open>size\<close> field (21) and no \<open>version\<close> field.
\<close>

theorem generate_no_version_counterexample:
  "getVersion [65] L = Inr 1 \<and>
   (case generate [65] L of
      Inl e \<Rightarrow> False
    | Inr obj \<Rightarrow> map_of obj ''version'' = None \<and> map_of obj ''size'' = Some (JNumber 21))"
proof -
  from generate_result [OF getVersion_A] obtain m where
    "generate [65] L = Inr [(''matrix'', JMatrix m), (''size'', JNumber (4 * 1 + 17))]" by blast
  with getVersion_A show ?thesis by simp
qed

text \<open>
  C4, amended. For every payload that \<open>getVersion\<close> gives a version (one that fits some
  version up to 40 at the requested level), \<open>generate\<close> returns a record with exactly
  the two fields \<open>matrix\<close> and \<open>size\<close>, where \<open>size = version * 4 + 17\<close> and the matrix
  has \<open>size\<close> rows of \<open>size\<close> modules each. No step on the way throws or writes
  outside the grid.
\<close>

theorem generate_matrix_and_size:
  assumes "getVersion text ecLevel = Inr version"
  shows "\<exists>m. generate text ecLevel =
              Inr [(''matrix'', JMatrix m), (''size'', JNumber (version * 4 + 17))] \<and>
             length m = version * 4 + 17 \<and>
             list_all (\<lambda>row. length row = version * 4 + 17) m"
proof -
  from generate_result [OF assms] obtain k m where
    k: "k < 8"
    and a: "\<forall>j<8. \<exists>mj. masked_matrix text ecLevel j = Some mj \<and> square (4 * version + 17) mj"
    and m: "masked_matrix text ecLevel k = Some m"
    and g: "generate text ecLevel = Inr [(''matrix'', JMatrix m), (''size'', JNumber (4 * version + 17))]"
    by (auto simp: first_min_def)
  from a k m have "square (4 * version + 17) m" by auto
  with g show ?thesis by (auto simp: square_def mult.commute)
qed

theorem generate_matrix_and_size_witness:
  "\<exists>m. generate [65] L = Inr [(''matrix'', JMatrix m), (''size'', JNumber 21)] \<and> length m = 21"
  using generate_matrix_and_size [OF getVersion_A] by auto

lemma first_min_unique: "first_min p n k \<Longrightarrow> first_min p n k' \<Longrightarrow> k = k'"
  by (metis first_min_def leD linorder_neqE_nat)

text \<open>
  C1, amended. For every payload that has a version, the matrix \<open>generate\<close> returns is
  the masked grid of a mask index k in [0,7] whose score under \<open>scorePenalty\<close> (the
  run rule P1 plus the 2x2 block rule P2, and nothing else) is least among the eight
  masked grids, and strictly less than the score of every lower index: ties go to the
  lowest index.
\<close>

theorem generate_minimises_code_penalty:
  assumes "getVersion text ecLevel = Inr version"
  shows "\<exists>k m. k < 8 \<and>
           masked_matrix text ecLevel k = Some m \<and>
           generate text ecLevel =
             Inr [(''matrix'', JMatrix m), (''size'', JNumber (length m))] \<and>
           (\<forall>j<8. \<exists>mj. masked_matrix text ecLevel j = Some mj \<and>
                        code_penalty m \<le> code_penalty mj \<and>
                        (j < k \<longrightarrow> code_penalty m < code_penalty mj))"
proof -
  from generate_result [OF assms] obtain k m where
    fm: "first_min (\<lambda>j. code_penalty (the (masked_matrix text ecLevel j))) 8 k"
    and a: "\<forall>j<8. \<exists>mj. masked_matrix text ecLevel j = Some mj \<and> square (4 * version + 17) mj"
    and m: "masked_matrix text ecLevel k = Some m"
    and g: "generate text ecLevel = Inr [(''matrix'', JMatrix m), (''size'', JNumber (4 * version + 17))]"
    by blast
  from fm have k: "k < 8" by (simp add: first_min_def)
  from a k m have len: "length m = 4 * version + 17" by (auto simp: square_def)
  have "\<exists>mj. masked_matrix text ecLevel j = Some mj \<and> code_penalty m \<le> code_penalty mj \<and>
          (j < k \<longrightarrow> code_penalty m < code_penalty mj)" if j: "j < 8" for j
  proof -
    from a j obtain mj where mj: "masked_matrix text ecLevel j = Some mj" by blast
    from fm j m mj have "code_penalty m \<le> code_penalty mj"
      by (auto simp: first_min_def)
    moreover from fm m mj have "j < k \<longrightarrow> code_penalty m < code_penalty mj"
      by (auto simp: first_min_def)
    ultimately show ?thesis using mj by blast
  qed
  with k m g len show ?thesis by auto
qed

theorem generate_minimises_code_penalty_witness:
  "\<exists>k m. k < 8 \<and> masked_matrix [65] L k = Some m \<and>
     generate [65] L = Inr [(''matrix'', JMatrix m), (''size'', JNumber (length m))]"
  using generate_minimises_code_penalty [OF getVersion_A] by blast

end
